theory Spec2Isabelle
  imports Main "HOL-Library.Word"
begin

section \<open>The 2048 engine of gym-game2048 (envs/game2048.py)\<close>

text \<open>
  The board is a NumPy array of shape (size, size) and dtype uint8; a cell holds the
  exponent of its tile, 0 for an empty cell. Here a board is the list of its rows and a
  cell a natural number; the wrap-around of uint8 is written out where the engine writes
  a line back into the board (\<open>to_uint8\<close>). The lines \<open>_combiner\<close> builds have dtype
  int32; their entries never exceed 256, so they are natural numbers as well.

  The score events are the values \<open>2 ** new_line[k]\<close>, a Python int raised to a NumPy
  int32 scalar. The result is a NumPy integer of fixed width: int32 where NumPy keeps the
  dtype of the scalar (NumPy 2), int64 where it promotes the Python int to the default
  integer (NumPy 1). Both wrap around. The width is the type parameter \<open>'w\<close> of the
  model: a score is a \<open>'w word\<close>, read as a signed number by \<open>sint\<close>.
\<close>

datatype error = AssertionError | IndexError | ValueError

type_synonym board = "nat list list"

definition to_uint8 :: "nat \<Rightarrow> nat" where
  "to_uint8 x = x mod 256"

record (overloaded) 'w state =
  size_n :: nat
  board_goal :: nat
  best_score :: "'w word"
  n_episode :: nat
  board :: board
  legal_moves :: "nat list"
  is_legal :: bool
  score :: "'w word"
  score_per_step :: "'w word list"
  n_step :: nat

subsection \<open>\<open>_combiner\<close>\<close>

text \<open>
  The loop state of \<open>_combiner\<close>: the arrays \<open>new_line\<close> and \<open>is_combined\<close>, the
  cursor \<open>cur\<close> and the list \<open>self.score_per_step\<close> the loop appends to. The cursor
  is an integer: in the branch for the right it ends at -1 on a full line.
\<close>

type_synonym 'w comb_state = "nat list \<times> nat list \<times> int \<times> 'w word list"

text \<open>One iteration of the loop for \<open>way == 0\<close>, on the cell \<open>x = line[i]\<close>.\<close>

definition comb_step0 :: "'w::len comb_state \<Rightarrow> nat \<Rightarrow> 'w comb_state" where
  "comb_step0 st x =
     (case st of (new_line, is_combined, cur, sps) \<Rightarrow>
        if x \<noteq> 0 then
          if cur = 0 then (new_line[nat cur := x], is_combined, cur + 1, sps)
          else if new_line ! nat (cur - 1) = x \<and> is_combined ! nat (cur - 1) = 0 then
            (new_line[nat (cur - 1) := new_line ! nat (cur - 1) + 1],
             is_combined[nat (cur - 1) := 1], cur,
             sps @ [2 ^ (new_line ! nat (cur - 1) + 1)])
          else (new_line[nat cur := x], is_combined, cur + 1, sps)
        else st)"

text \<open>One iteration of the loop for \<open>way == 1\<close>; \<open>n\<close> is \<open>self.size\<close>.\<close>

definition comb_step1 :: "nat \<Rightarrow> 'w::len comb_state \<Rightarrow> nat \<Rightarrow> 'w comb_state" where
  "comb_step1 n st x =
     (case st of (new_line, is_combined, cur, sps) \<Rightarrow>
        if x \<noteq> 0 then
          if cur = int n - 1 then (new_line[nat cur := x], is_combined, cur - 1, sps)
          else if new_line ! nat (cur + 1) = x \<and> is_combined ! nat (cur + 1) = 0 then
            (new_line[nat (cur + 1) := new_line ! nat (cur + 1) + 1],
             is_combined[nat (cur + 1) := 1], cur,
             sps @ [2 ^ (new_line ! nat (cur + 1) + 1)])
          else (new_line[nat cur := x], is_combined, cur - 1, sps)
        else st)"

text \<open>
  \<open>_combiner(line, way)\<close>: the assertion on \<open>way\<close>, then the loop over
  \<open>range(size)\<close> or over \<open>range(size - 1, -1, -1)\<close>. The result is the new line and
  the extended \<open>score_per_step\<close>.
\<close>

definition combiner ::
  "nat \<Rightarrow> nat list \<Rightarrow> int \<Rightarrow> 'w::len word list \<Rightarrow> error + (nat list \<times> 'w word list)" where
  "combiner n line way sps =
     (if \<not> (way = 0 \<or> way = 1) then Inl AssertionError
      else if way = 0 then
        (case foldl comb_step0 (replicate n 0, replicate n 0, 0, sps)
                (map (\<lambda>i. line ! i) [0..<n]) of
           (new_line, is_combined, cur, sps') \<Rightarrow> Inr (new_line, sps'))
      else
        (case foldl (comb_step1 n) (replicate n 0, replicate n 0, int n - 1, sps)
                (map (\<lambda>i. line ! i) (rev [0..<n])) of
           (new_line, is_combined, cur, sps') \<Rightarrow> Inr (new_line, sps')))"

subsection \<open>\<open>_check_if_same\<close>\<close>

text \<open>
  The nested loops return True at the first non-empty cell equal to its right (below)
  neighbour, and False after the last one: an existence over the index ranges.
\<close>

definition check_if_same :: "nat \<Rightarrow> board \<Rightarrow> nat \<Rightarrow> bool" where
  "check_if_same n b way =
     (if way = 0 then
        list_ex (\<lambda>r. list_ex (\<lambda>c. b ! r ! c \<noteq> 0 \<and> b ! r ! c = b ! r ! (c + 1)) [0..<n - 1])
          [0..<n]
      else
        list_ex (\<lambda>c. list_ex (\<lambda>r. b ! r ! c \<noteq> 0 \<and> b ! r ! c = b ! (r + 1) ! c) [0..<n - 1])
          [0..<n])"

subsection \<open>\<open>_check_legal\<close>\<close>

text \<open>\<open>self.board[:, i] != 0\<close> and \<open>self.board[i, :] != 0\<close>.\<close>

definition occ_col :: "nat \<Rightarrow> board \<Rightarrow> nat \<Rightarrow> bool list" where
  "occ_col n b i = map (\<lambda>r. b ! r ! i \<noteq> 0) [0..<n]"

definition occ_row :: "nat \<Rightarrow> board \<Rightarrow> nat \<Rightarrow> bool list" where
  "occ_row n b i = map (\<lambda>c. b ! i ! c \<noteq> 0) [0..<n]"

text \<open>
  The loop shared by the four branches: \<open>np.any((checker ^ line) & checker)\<close> returns
  True, otherwise \<open>checker |= line\<close>; False after the last line.
\<close>

fun check_legal_loop :: "bool list \<Rightarrow> bool list list \<Rightarrow> bool" where
  "check_legal_loop checker [] = False"
| "check_legal_loop checker (line # lines) =
     (if list_ex (\<lambda>(c, l). (c \<noteq> l) \<and> c) (zip checker line) then True
      else check_legal_loop (map (\<lambda>(c, l). c \<or> l) (zip checker line)) lines)"

text \<open>
  On a board of size 0 the first index (\<open>self.board[:, self.size - 1]\<close> and the three
  others) is out of bounds. \<open>range(self.size - 2, -1, -1)\<close> is \<open>rev [0..<n - 1]\<close>.
\<close>

definition check_legal :: "nat \<Rightarrow> board \<Rightarrow> nat \<Rightarrow> error + bool" where
  "check_legal n b way =
     (if n = 0 then Inl IndexError
      else if way = 0 then
        Inr (check_legal_loop (occ_col n b (n - 1)) (map (occ_col n b) (rev [0..<n - 1])))
      else if way = 1 then
        Inr (check_legal_loop (occ_col n b 0) (map (occ_col n b) [1..<n]))
      else if way = 2 then
        Inr (check_legal_loop (occ_row n b (n - 1)) (map (occ_row n b) (rev [0..<n - 1])))
      else
        Inr (check_legal_loop (occ_row n b 0) (map (occ_row n b) [1..<n])))"

subsection \<open>\<open>_update_legal_moves\<close>\<close>

text \<open>The loop \<open>for i in range(4)\<close> over the vector \<open>lm\<close>, updated in place.\<close>

fun update_legal_loop :: "nat \<Rightarrow> board \<Rightarrow> nat list \<Rightarrow> nat list \<Rightarrow> error + nat list" where
  "update_legal_loop n b lm [] = Inr lm"
| "update_legal_loop n b lm (i # is) =
     (if lm ! i = 0 then
        (case check_legal n b i of
           Inl e \<Rightarrow> Inl e
         | Inr ok \<Rightarrow> update_legal_loop n b (if ok then lm[i := 1] else lm) is)
      else update_legal_loop n b lm is)"

definition update_legal_moves :: "nat \<Rightarrow> board \<Rightarrow> nat list \<Rightarrow> error + nat list" where
  "update_legal_moves n b lm =
     (let lm1 = (if check_if_same n b 0 then lm[0 := 1, 1 := 1] else lm[0 := 0, 1 := 0]);
          lm2 = (if check_if_same n b 1 then lm1[2 := 1, 3 := 1] else lm1[2 := 0, 3 := 0])
      in update_legal_loop n b lm2 [0, 1, 2, 3])"

subsection \<open>\<open>_spawn_block\<close> and \<open>_random_1_2\<close>\<close>

text \<open>
  The two draws of a spawn are inputs of the model: \<open>raw\<close> stands for the generator
  behind \<open>self.np_random.integers(high)\<close>, whose result lies in \<open>[0, high)\<close> and is
  \<open>raw mod high\<close> here, and \<open>lt\<close> for the outcome of
  \<open>self.np_random.random() < 0.9\<close>. \<open>integers(0)\<close> raises ValueError.
  \<open>np.where(self.board == 0)\<close> lists the empty cells row by row.
\<close>

type_synonym draw = "nat \<times> bool"

definition zero_pos :: "nat \<Rightarrow> board \<Rightarrow> (nat \<times> nat) list" where
  "zero_pos n b =
     filter (\<lambda>(r, c). b ! r ! c = 0) (concat (map (\<lambda>r. map (\<lambda>c. (r, c)) [0..<n]) [0..<n]))"

definition random_1_2 :: "bool \<Rightarrow> nat" where
  "random_1_2 lt = (if lt then 1 else 2)"

definition spawn_block :: "nat \<Rightarrow> board \<Rightarrow> draw \<Rightarrow> error + board" where
  "spawn_block n b d =
     (case d of (raw, lt) \<Rightarrow>
        let zp = zero_pos n b in
        if length zp = 0 then Inl ValueError
        else (case zp ! (raw mod length zp) of
                (r, c) \<Rightarrow> Inr (b[r := (b ! r)[c := random_1_2 lt]])))"

subsection \<open>Goal and game over\<close>

definition is_reach_goal :: "board \<Rightarrow> nat \<Rightarrow> bool" where
  "is_reach_goal b g = list_ex (\<lambda>row. list_ex (\<lambda>x. x = g) row) b"

definition is_game_over :: "nat \<Rightarrow> board \<Rightarrow> bool" where
  "is_game_over n b =
     (if list_ex (\<lambda>row. list_ex (\<lambda>x. x = 0) row) b then False
      else if check_if_same n b 0 \<or> check_if_same n b 1 then False
      else True)"

text \<open>\<open>max(self.best_score, self.score)\<close> compares the signed values.\<close>

definition update_best_score :: "'w::len state \<Rightarrow> 'w state" where
  "update_best_score s =
     s\<lparr>best_score := (if sint (best_score s) < sint (score s) then score s else best_score s)\<rparr>"

subsection \<open>\<open>step\<close>\<close>

text \<open>
  The two loops of \<open>step\<close> that apply a move. A new line is written back into the
  uint8 board, a row by \<open>self.board[r, :] = new_line\<close>, a column by
  \<open>self.board[:, c] = new_line\<close>.
\<close>

definition get_col :: "nat \<Rightarrow> board \<Rightarrow> nat \<Rightarrow> nat list" where
  "get_col n b c = map (\<lambda>r. b ! r ! c) [0..<n]"

definition set_col :: "board \<Rightarrow> nat \<Rightarrow> nat list \<Rightarrow> board" where
  "set_col b c new_line = map (\<lambda>(row, v). row[c := to_uint8 v]) (zip b new_line)"

fun move_rows ::
  "nat \<Rightarrow> int \<Rightarrow> nat list \<Rightarrow> board \<times> 'w::len word list \<Rightarrow> error + (board \<times> 'w word list)" where
  "move_rows n way [] st = Inr st"
| "move_rows n way (r # rs) st =
     (case st of (b, sps) \<Rightarrow>
        (case combiner n (b ! r) way sps of
           Inl e \<Rightarrow> Inl e
         | Inr (new_line, sps') \<Rightarrow> move_rows n way rs (b[r := map to_uint8 new_line], sps')))"

fun move_cols ::
  "nat \<Rightarrow> int \<Rightarrow> nat list \<Rightarrow> board \<times> 'w::len word list \<Rightarrow> error + (board \<times> 'w word list)" where
  "move_cols n way [] st = Inr st"
| "move_cols n way (c # cs) st =
     (case st of (b, sps) \<Rightarrow>
        (case combiner n (get_col n b c) way sps of
           Inl e \<Rightarrow> Inl e
         | Inr (new_line, sps') \<Rightarrow> move_cols n way cs (set_col b c new_line, sps')))"

definition apply_move ::
  "nat \<Rightarrow> board \<Rightarrow> int \<Rightarrow> 'w::len word list \<Rightarrow> error + (board \<times> 'w word list)" where
  "apply_move n b action sps =
     (if action < 2 then move_rows n action [0..<n] (b, sps)
      else move_cols n (action - 2) [0..<n] (b, sps))"

text \<open>
  \<open>self.legal_moves[action]\<close> with Python's indexing: a negative index counts from
  the end, an index outside the array raises IndexError.
\<close>

definition py_index :: "nat list \<Rightarrow> int \<Rightarrow> error + nat" where
  "py_index xs i =
     (let j = (if i < 0 then int (length xs) + i else i)
      in if 0 \<le> j \<and> j < int (length xs) then Inr (xs ! nat j) else Inl IndexError)"

text \<open>
  The part of \<open>step\<close> after a move that did not reach the goal: the spawn, the test for
  the end of the game, the reward.
\<close>

definition spawn_and_check :: "'w::len state \<Rightarrow> draw \<Rightarrow> error + ('w state \<times> int \<times> bool)" where
  "spawn_and_check s d =
     (case spawn_block (size_n s) (board s) d of
        Inl e \<Rightarrow> Inl e
      | Inr b \<Rightarrow>
          let s1 = s\<lparr>board := b\<rparr> in
          if is_game_over (size_n s) b then Inr (update_best_score s1, - 1, True)
          else Inr (s1, 0, False))"

text \<open>
  The branch of \<open>step\<close> for \<open>is_changed\<close>, the one for an action that is not legal,
  and the common end: \<open>self._update_legal_moves()\<close> and the returned reward and
  \<open>terminated\<close>.
\<close>

definition step_changed ::
  "'w::len state \<Rightarrow> int \<Rightarrow> draw \<Rightarrow> error + ('w state \<times> int \<times> bool)" where
  "step_changed s action d =
     (case apply_move (size_n s) (board s) action (score_per_step s) of
        Inl e \<Rightarrow> Inl e
      | Inr (b, sps) \<Rightarrow>
          let s1 = s\<lparr>is_legal := True, board := b, score_per_step := sps,
                     score := score s + sum_list sps\<rparr>
          in if is_reach_goal b (board_goal s) then Inr (s1, 1, True)
             else spawn_and_check s1 d)"

definition step :: "'w::len state \<Rightarrow> int \<Rightarrow> draw \<Rightarrow> error + ('w state \<times> int \<times> bool)" where
  "step s action d =
     (let s0 = s\<lparr>n_step := n_step s + 1, score_per_step := []\<rparr> in
      case py_index (legal_moves s0) action of
        Inl e \<Rightarrow> Inl e
      | Inr entry \<Rightarrow>
          (case (if entry = 1 then step_changed s0 action d
                 else Inr (s0\<lparr>is_legal := False\<rparr>, 0, False)) of
             Inl e \<Rightarrow> Inl e
           | Inr (s1, reward, terminated) \<Rightarrow>
               (case update_legal_moves (size_n s1) (board s1) (legal_moves s1) of
                  Inl e \<Rightarrow> Inl e
                | Inr lm \<Rightarrow> Inr (s1\<lparr>legal_moves := lm\<rparr>, reward, terminated))))"

subsection \<open>\<open>reset\<close>\<close>

text \<open>
  \<open>reset\<close> reads \<open>self.size\<close> and \<open>self.n_episode\<close> and assigns every other field
  it touches; \<open>self.best_score\<close> and \<open>self.board_goal\<close> stay as they are.
\<close>

definition reset :: "'w::len state \<Rightarrow> draw \<Rightarrow> draw \<Rightarrow> error + 'w state" where
  "reset s d1 d2 =
     (let n = size_n s in
      case spawn_block n (replicate n (replicate n 0)) d1 of
        Inl e \<Rightarrow> Inl e
      | Inr b1 \<Rightarrow>
          (case spawn_block n b1 d2 of
             Inl e \<Rightarrow> Inl e
           | Inr b2 \<Rightarrow>
               (case update_legal_moves n b2 [1, 1, 1, 1] of
                  Inl e \<Rightarrow> Inl e
                | Inr lm \<Rightarrow>
                    Inr (s\<lparr>board := b2, legal_moves := lm, is_legal := True, score := 0,
                           score_per_step := [], n_step := 0,
                           n_episode := n_episode s + 1\<rparr>))))"


section \<open>Auxiliary definitions\<close>

subsection \<open>The loop of \<open>_combiner\<close> as a list function\<close>

text \<open>
  The cells of a line in the order the loop visits them are folded into three values: the
  tiles placed so far (the latest first), the flag \<open>is_combined\<close> of the latest slot,
  and the exponents of the tiles produced by merges. \<open>sim0\<close> and \<open>sim1\<close> relate the
  arrays and the cursor of the two loops of \<open>_combiner\<close> to these values.
\<close>

type_synonym astate = "nat list \<times> bool \<times> nat list"

definition slide_step :: "astate \<Rightarrow> nat \<Rightarrow> astate" where
  "slide_step a x =
     (case a of (acc, comb, ev) \<Rightarrow>
        if x = 0 then a
        else (case acc of
                [] \<Rightarrow> ([x], False, ev)
              | y # ys \<Rightarrow> if y = x \<and> \<not> comb then (Suc y # ys, True, ev @ [Suc y])
                          else (x # acc, False, ev)))"

definition sim0 :: "nat \<Rightarrow> 'w::len word list \<Rightarrow> 'w comb_state \<Rightarrow> astate \<Rightarrow> bool" where
  "sim0 n sps0 st a =
     (case st of (nl, ic, cur, sps) \<Rightarrow> case a of (acc, comb, ev) \<Rightarrow>
        nl = rev acc @ replicate (n - length acc) 0 \<and> cur = int (length acc) \<and>
        length ic = n \<and> length acc \<le> n \<and>
        (acc \<noteq> [] \<longrightarrow> (ic ! (length acc - 1) = 0) = (\<not> comb)) \<and>
        (\<forall>j. length acc \<le> j \<and> j < n \<longrightarrow> ic ! j = 0) \<and>
        sps = sps0 @ map (\<lambda>e. 2 ^ e) ev)"

definition sim1 :: "nat \<Rightarrow> 'w::len word list \<Rightarrow> 'w comb_state \<Rightarrow> astate \<Rightarrow> bool" where
  "sim1 n sps0 st a =
     (case st of (nl, ic, cur, sps) \<Rightarrow> case a of (acc, comb, ev) \<Rightarrow>
        nl = replicate (n - length acc) 0 @ acc \<and> cur = int n - 1 - int (length acc) \<and>
        length ic = n \<and> length acc \<le> n \<and>
        (acc \<noteq> [] \<longrightarrow> (ic ! (n - length acc) = 0) = (\<not> comb)) \<and>
        (\<forall>j. j < n - length acc \<longrightarrow> ic ! j = 0) \<and>
        sps = sps0 @ map (\<lambda>e. 2 ^ e) ev)"

definition slide :: "nat list \<Rightarrow> astate" where
  "slide xs = foldl slide_step ([], False, []) xs"

definition placed :: "nat list \<Rightarrow> nat list" where
  "placed xs = fst (slide xs)"

definition merged :: "nat list \<Rightarrow> nat list" where
  "merged xs = snd (snd (slide xs))"

text \<open>
  The order in which \<open>_combiner\<close> visits a line (from the compaction edge outward),
  the line it returns, and the score events it appends.
\<close>

definition scan_order :: "int \<Rightarrow> nat list \<Rightarrow> nat list" where
  "scan_order way line = (if way = 0 then line else rev line)"

definition moved_line :: "int \<Rightarrow> nat list \<Rightarrow> nat list" where
  "moved_line way line =
     scan_order way (rev (placed (scan_order way line)) @
       replicate (length line - length (placed (scan_order way line))) 0)"

definition line_events :: "int \<Rightarrow> nat list \<Rightarrow> 'w::len word list" where
  "line_events way line = map (\<lambda>e. 2 ^ e) (merged (scan_order way line))"

subsection \<open>Tiles, gaps and equal neighbours of a line\<close>

text \<open>
  The non-empty cells of a line; two equal neighbours among them; an empty cell with a
  tile behind it; two equal non-empty neighbours in the line itself (what
  \<open>_check_if_same\<close> looks for).
\<close>

definition tiles :: "nat list \<Rightarrow> nat list" where
  "tiles xs = filter (\<lambda>x. x \<noteq> 0) xs"

fun has_adj :: "nat list \<Rightarrow> bool" where
  "has_adj (x # y # zs) = (x = y \<or> has_adj (y # zs))"
| "has_adj _ = False"

fun has_gap :: "nat list \<Rightarrow> bool" where
  "has_gap [] = False"
| "has_gap (x # xs) = ((x = 0 \<and> tiles xs \<noteq> []) \<or> has_gap xs)"

fun raw_adj :: "nat list \<Rightarrow> bool" where
  "raw_adj (x # y # zs) = ((x \<noteq> 0 \<and> x = y) \<or> raw_adj (y # zs))"
| "raw_adj _ = False"

text \<open>
  What the fold keeps: the placed tiles are not empty, every tile is placed or merged
  away, the total value is that of the tiles read, and a merge happens exactly when two
  equal tiles are neighbours.
\<close>

definition slide_inv :: "nat list \<Rightarrow> astate \<Rightarrow> bool" where
  "slide_inv xs a =
     (case a of (acc, comb, ev) \<Rightarrow>
        0 \<notin> set acc \<and>
        length acc + length ev = length (tiles xs) \<and>
        (\<Sum>e\<leftarrow>acc. (2::nat) ^ e) = (\<Sum>e\<leftarrow>tiles xs. 2 ^ e) \<and>
        (ev = [] \<longrightarrow> acc = rev (tiles xs) \<and> \<not> comb) \<and>
        (ev = [] \<longleftrightarrow> \<not> has_adj (tiles xs)) \<and>
        (comb \<longrightarrow> ev \<noteq> []))"

text \<open>
  The tiles of a line cut into groups of one tile or of two equal tiles; a group of two
  becomes the tile with the next exponent.
\<close>

definition tile_of :: "nat list \<Rightarrow> nat" where
  "tile_of g = (if length g = 2 then Suc (hd g) else hd g)"

definition groups_ok :: "nat list list \<Rightarrow> bool" where
  "groups_ok gs = list_all (\<lambda>g. g = [hd g] \<or> g = [hd g, hd g]) gs"

definition group_inv :: "nat list \<Rightarrow> astate \<Rightarrow> bool" where
  "group_inv xs a =
     (case a of (acc, comb, ev) \<Rightarrow>
        \<exists>gs. concat gs = tiles xs \<and> groups_ok gs \<and> acc = rev (map tile_of gs) \<and>
             ev = map tile_of (filter (\<lambda>g. length g = 2) gs) \<and>
             (comb \<longleftrightarrow> gs \<noteq> [] \<and> length (last gs) = 2))"




subsection \<open>Boards\<close>

text \<open>
  A board of the engine is a square array of uint8 cells. \<open>tr\<close> is the transposed
  board, the list of the columns.
\<close>

definition square :: "nat \<Rightarrow> board \<Rightarrow> bool" where
  "square n b = (length b = n \<and> (\<forall>row \<in> set b. length row = n))"

definition wf_board :: "nat \<Rightarrow> board \<Rightarrow> bool" where
  "wf_board n b =
     (length b = n \<and> list_all (\<lambda>row. length row = n \<and> list_all (\<lambda>x. x < 256) row) b)"

definition cells_below :: "nat \<Rightarrow> board \<Rightarrow> bool" where
  "cells_below g b = (\<forall>row \<in> set b. \<forall>x \<in> set row. x < g)"

definition tr :: "nat \<Rightarrow> board \<Rightarrow> board" where
  "tr n b = map (get_col n b) [0..<n]"

text \<open>The board \<open>np.zeros((size, size))\<close> of \<open>reset\<close>.\<close>

definition zeros :: "nat \<Rightarrow> board" where
  "zeros n = replicate n (replicate n 0)"

definition has_empty :: "nat \<Rightarrow> board \<Rightarrow> bool" where
  "has_empty n b = (\<exists>r<n. \<exists>c<n. b ! r ! c = 0)"

text \<open>
What one spawn does to a board: an empty cell receives the exponent 1 or 2.
\<close>

definition spawned :: "nat \<Rightarrow> board \<Rightarrow> board \<Rightarrow> bool" where
  "spawned n b b' =
     (\<exists>r<n. \<exists>c<n. b ! r ! c = 0 \<and>
        (b' = b[r := (b ! r)[c := 1]] \<or> b' = b[r := (b ! r)[c := 2]]))"

text \<open>
The entry of the legal-move vector for the direction \<open>D\<close>.
\<close>

definition legal_entry :: "nat \<Rightarrow> board \<Rightarrow> nat \<Rightarrow> nat" where
  "legal_entry n b D =
     (if check_if_same n b (D div 2) \<or> check_legal n b D = Inr True then 1 else 0)"

subsection \<open>The slide check as the specification words it\<close>

text \<open>
  The slide check in the words of the specification: the lines across the move axis
  (columns for left and right, rows for up and down), the compaction edge (index 0 for
  left and up, \<open>n - 1\<close> for right and down), a running mask that starts as the line at
  the compaction edge, the scan from there outward, and the test for an occupied position
  of the line where the mask has a zero.
\<close>

definition line_occ :: "nat \<Rightarrow> board \<Rightarrow> nat \<Rightarrow> nat \<Rightarrow> bool list" where
  "line_occ n b way i = (if way < 2 then occ_col n b i else occ_row n b i)"

definition compaction_edge :: "nat \<Rightarrow> nat \<Rightarrow> nat" where
  "compaction_edge n way = (if way = 0 \<or> way = 2 then 0 else n - 1)"

fun spec_scan :: "bool list \<Rightarrow> bool list list \<Rightarrow> bool" where
  "spec_scan msk [] = False"
| "spec_scan msk (line # lines) =
     (if list_ex (\<lambda>(m, l). l \<and> \<not> m) (zip msk line) then True
      else spec_scan (map (\<lambda>(m, l). m \<or> l) (zip msk line)) lines)"

definition spec_slide_check :: "nat \<Rightarrow> board \<Rightarrow> nat \<Rightarrow> bool" where
  "spec_slide_check n b way =
     (case (if compaction_edge n way = 0 then [0..<n] else rev [0..<n]) of
        [] \<Rightarrow> False
      | i # rest \<Rightarrow> spec_scan (line_occ n b way i) (map (line_occ n b way) rest))"

text \<open>
  The same scan started at the edge opposite to the compaction edge and run towards the
  compaction edge, with the test for an empty position of the line where the mask has a
  one.
\<close>

fun amended_scan :: "bool list \<Rightarrow> bool list list \<Rightarrow> bool" where
  "amended_scan msk [] = False"
| "amended_scan msk (line # lines) =
     (if list_ex (\<lambda>(m, l). m \<and> \<not> l) (zip msk line) then True
      else amended_scan (map (\<lambda>(m, l). m \<or> l) (zip msk line)) lines)"

definition amended_slide_check :: "nat \<Rightarrow> board \<Rightarrow> nat \<Rightarrow> bool" where
  "amended_slide_check n b way =
     (case (if compaction_edge n way = 0 then rev [0..<n] else [0..<n]) of
        [] \<Rightarrow> False
      | i # rest \<Rightarrow> amended_scan (line_occ n b way i) (map (line_occ n b way) rest))"

subsection \<open>States\<close>

text \<open>
  The states between two calls: the board is a square uint8 array of positive size and
  the legal-move vector is the one \<open>_update_legal_moves\<close> computes from the board, as
  after \<open>reset\<close> and after every \<open>step\<close>.
\<close>

definition consistent :: "'w::len state \<Rightarrow> bool" where
  "consistent s =
     (0 < size_n s \<and> wf_board (size_n s) (board s) \<and> length (legal_moves s) = 4 \<and>
      update_legal_moves (size_n s) (board s) (legal_moves s) = Inr (legal_moves s))"

text \<open>
  The states of an episode: the one \<open>reset\<close> returns on an engine with a valid goal,
  and those \<open>step\<close> returns from a state in which no step has yet returned
  \<open>terminated = True\<close>. The flag is the \<open>terminated\<close> of the call that produced the
  state.
\<close>

inductive reachable :: "'w::len state \<Rightarrow> bool \<Rightarrow> bool" where
  after_reset:
    "2 < board_goal s \<Longrightarrow> board_goal s < 256 \<Longrightarrow> reset s d1 d2 = Inr s' \<Longrightarrow>
     reachable s' False"
| after_step:
    "reachable s False \<Longrightarrow> step s action d = Inr (s', reward, terminated) \<Longrightarrow>
     reachable s' terminated"

definition good :: "'w::len state \<Rightarrow> bool \<Rightarrow> bool" where
  "good s t =
     (consistent s \<and> 2 < board_goal s \<and> board_goal s < 256 \<and>
      cells_below (Suc (board_goal s)) (board s) \<and>
      (\<not> t \<longrightarrow> cells_below (board_goal s) (board s)))"

subsection \<open>Example boards and states\<close>

text \<open>A 2 x 2 board with a pair of equal tiles in its first row.\<close>

definition small_board :: board where
  "small_board = [[1, 1], [0, 2]]"

text \<open>A 4 x 4 board with the single row \<open>[1, 0, 2, 0]\<close>.\<close>

definition gap_board :: board where
  "gap_board = [[1, 0, 2, 0], [0, 0, 0, 0], [0, 0, 0, 0], [0, 0, 0, 0]]"

text \<open>A full 2 x 2 board without equal neighbours, no direction legal.\<close>

definition full_state :: "32 state" where
  "full_state =
     \<lparr>size_n = 2, board_goal = 11, best_score = 0, n_episode = 1,
      board = [[1, 2], [2, 1]], legal_moves = [0, 0, 0, 0], is_legal = True,
      score = 0, score_per_step = [], n_step = 0\<rparr>"

text \<open>A state in the middle of a game on a 2 x 2 board.\<close>

definition mid_state :: "32 state" where
  "mid_state =
     \<lparr>size_n = 2, board_goal = 11, best_score = 0, n_episode = 1,
      board = [[1, 1], [0, 2]], legal_moves = [1, 1, 0, 1], is_legal = True,
      score = 0, score_per_step = [], n_step = 0\<rparr>"

text \<open>An engine of size 1, as the constructor leaves it.\<close>

definition tiny_state :: "32 state" where
  "tiny_state =
     \<lparr>size_n = 1, board_goal = 11, best_score = 0, n_episode = 0,
      board = [], legal_moves = [], is_legal = True,
      score = 0, score_per_step = [], n_step = 0\<rparr>"



section \<open>Results\<close>

subsection \<open>\<open>_update_legal_moves\<close> returns on a board of positive size\<close>

lemma check_legal_Inr: "0 < n \<Longrightarrow> \<exists>ok. check_legal n b way = Inr ok"
  by (simp add: check_legal_def)

lemma update_legal_loop_Inr:
  "0 < n \<Longrightarrow> \<exists>lm'. update_legal_loop n b lm is = Inr lm'"
proof (induction "is" arbitrary: lm)
  case Nil
  then show ?case by simp
next
  case (Cons i "is")
  from Cons.prems obtain ok where ok: "check_legal n b i = Inr ok"
    using check_legal_Inr by blast
  show ?case using Cons.IH [OF Cons.prems] ok by simp
qed

lemma update_legal_moves_Inr: "0 < n \<Longrightarrow> \<exists>lm'. update_legal_moves n b lm = Inr lm'"
  unfolding update_legal_moves_def Let_def by (rule update_legal_loop_Inr)

subsection \<open>An action that is not legal\<close>

text \<open>
  Claim C6. In a state of an engine of positive size, an action whose entry in the
  legal-move vector is 0 makes \<open>step\<close> return (no exception) with reward 0 and
  \<open>terminated = False\<close>; the board, the score and the best score are those of the
  state before, and \<open>is_legal\<close> is False.
\<close>

theorem illegal_action_defined:
  assumes "0 < size_n s" and "py_index (legal_moves s) action = Inr 0"
  shows "\<exists>s'. step s action d = Inr (s', 0, False) \<and> board s' = board s \<and>
           score s' = score s \<and> best_score s' = best_score s \<and> is_legal s' = False"
proof -
  obtain lm where lm: "update_legal_moves (size_n s) (board s) (legal_moves s) = Inr lm"
    using update_legal_moves_Inr [OF assms(1)] by blast
  show ?thesis using assms(2) lm by (simp add: step_def)
qed

theorem illegal_action_defined_witness:
  "0 < size_n full_state \<and> py_index (legal_moves full_state) 0 = Inr 0 \<and>
   (\<exists>s'. step full_state 0 (0, True) = Inr (s', 0, False) \<and> board s' = [[1, 2], [2, 1]] \<and>
      score s' = 0 \<and> best_score s' = 0 \<and> is_legal s' = False)"
proof -
  have h1: "0 < size_n full_state" by (simp add: full_state_def)
  have h2: "py_index (legal_moves full_state) 0 = Inr 0"
    by (simp add: full_state_def py_index_def)
  show ?thesis using h1 h2 illegal_action_defined [OF h1 h2, of "(0, True)"]
    by (simp add: full_state_def)
qed

subsection \<open>The loops of \<open>_combiner\<close> compute the list function\<close>

lemma nat_int_Suc: "nat (1 + int k) = Suc k" "nat (int k + 1) = Suc k"
  by simp_all

lemma zeros_update_here:
  "length xs < n \<Longrightarrow>
   (xs @ replicate (n - length xs) (0::nat))[length xs := x] =
   (xs @ [x]) @ replicate (n - Suc (length xs)) 0"
  by (cases "n - length xs") (auto simp: list_update_append)

lemma zeros_update_last:
  "(xs @ y # zs)[length xs := x] = xs @ x # zs"
  by (simp add: list_update_append)

lemma sim0_step:
  assumes "sim0 n sps0 st a" and "length (fst a) < n"
  shows "sim0 n sps0 (comb_step0 st x) (slide_step a x)"
proof -
  obtain nl ic cur sps where st: "st = (nl, ic, cur, sps)" by (cases st) auto
  obtain acc comb ev where a: "a = (acc, comb, ev)" by (cases a) auto
  show ?thesis
  proof (cases acc)
    case Nil
    with assms st a show ?thesis
      by (cases n) (auto simp: sim0_def comb_step0_def slide_step_def)
  next
    case (Cons y ys)
    have len: "length (rev ys @ [y]) < n" using assms a Cons by simp
    have u: "(rev ys @ y # replicate (n - Suc (length ys)) 0)[Suc (length ys) := x] =
             rev ys @ y # x # replicate (n - Suc (Suc (length ys))) 0"
      using zeros_update_here [OF len, of x] by simp
    have v: "(rev ys @ w # zs)[length ys := z] = rev ys @ z # zs" for w zs z
      using zeros_update_last [of "rev ys" w zs z] by simp
    from assms st a Cons show ?thesis
      by (auto simp: sim0_def comb_step0_def slide_step_def nth_append nat_int_Suc u v
            nth_list_update)
  qed
qed

lemma zeros_update_before:
  "k < n \<Longrightarrow> (replicate (n - k) (0::nat) @ xs)[n - Suc k := x] = replicate (n - Suc k) 0 @ x # xs"
proof -
  assume "k < n"
  then obtain m where m: "n - k = Suc m" "n - Suc k = m" by (cases "n - k") auto
  have "replicate (Suc m) (0::nat) = replicate m 0 @ [0]"
    by (simp add: replicate_append_same)
  then show ?thesis using m by (simp add: list_update_append del: replicate_Suc)
qed

lemma sim1_step:
  assumes "sim1 n sps0 st a" and "length (fst a) < n"
  shows "sim1 n sps0 (comb_step1 n st x) (slide_step a x)"
proof -
  obtain nl ic cur sps where st: "st = (nl, ic, cur, sps)" by (cases st) auto
  obtain acc comb ev where a: "a = (acc, comb, ev)" by (cases a) auto
  show ?thesis
  proof (cases acc)
    case Nil
    with assms st a zeros_update_before [of 0 n "[]" x] show ?thesis
      by (auto simp: sim1_def comb_step1_def slide_step_def nat_diff_distrib')
  next
    case (Cons y ys)
    have k: "Suc (length ys) < n" using assms a Cons by simp
    have c1: "nat (int n - int (length ys) - 2) = n - Suc (Suc (length ys))"
      by simp
    have c2: "nat (int n - 1 - (1 + int (length ys)) + 1) = n - Suc (length ys)"
      using k by simp
    have u: "(replicate (n - Suc (length ys)) 0 @ w # ys)[n - Suc (Suc (length ys)) := x] =
             replicate (n - Suc (Suc (length ys))) 0 @ x # w # ys" for w
      using zeros_update_before [OF k, of "w # ys" x] by simp
    have v: "(replicate (n - Suc (length ys)) 0 @ w # ys)[n - Suc (length ys) := z] =
             replicate (n - Suc (length ys)) 0 @ z # ys" for w z
      by (simp add: list_update_append)
    from assms st a Cons k show ?thesis
      by (auto simp: sim1_def comb_step1_def slide_step_def nth_append c1 c2 u v
            nth_list_update)
  qed
qed

lemma slide_step_length: "length (fst (slide_step a x)) \<le> Suc (length (fst a))"
  by (cases a) (auto simp: slide_step_def split: list.splits)

lemma sim0_foldl:
  "sim0 n sps0 st a \<Longrightarrow> length (fst a) + length xs \<le> n \<Longrightarrow>
   sim0 n sps0 (foldl comb_step0 st xs) (foldl slide_step a xs)"
proof (induction xs arbitrary: st a)
  case Nil
  then show ?case by simp
next
  case (Cons x xs)
  have "sim0 n sps0 (comb_step0 st x) (slide_step a x)"
    using Cons.prems by (intro sim0_step) auto
  moreover have "length (fst (slide_step a x)) + length xs \<le> n"
    using slide_step_length [of a x] Cons.prems(2) by simp
  ultimately show ?case using Cons.IH by simp
qed

lemma sim1_foldl:
  "sim1 n sps0 st a \<Longrightarrow> length (fst a) + length xs \<le> n \<Longrightarrow>
   sim1 n sps0 (foldl (comb_step1 n) st xs) (foldl slide_step a xs)"
proof (induction xs arbitrary: st a)
  case Nil
  then show ?case by simp
next
  case (Cons x xs)
  have "sim1 n sps0 (comb_step1 n st x) (slide_step a x)"
    using Cons.prems by (intro sim1_step) auto
  moreover have "length (fst (slide_step a x)) + length xs \<le> n"
    using slide_step_length [of a x] Cons.prems(2) by simp
  ultimately show ?case using Cons.IH by simp
qed

lemma map_nth_upt: "length line = n \<Longrightarrow> map (\<lambda>i. line ! i) [0..<n] = line"
  using map_nth [of line] by auto

lemma combiner_left:
  assumes "length line = n"
  shows "combiner n line 0 sps =
         Inr (rev (placed line) @ replicate (n - length (placed line)) 0,
              sps @ map (\<lambda>e. 2 ^ e) (merged line))"
proof -
  have l: "map (\<lambda>i. line ! i) [0..<n] = line" using assms by (rule map_nth_upt)
  have "sim0 n sps (replicate n 0, replicate n 0, 0, sps) ([], False, [])"
    by (simp add: sim0_def)
  then have "sim0 n sps (foldl comb_step0 (replicate n 0, replicate n 0, 0, sps) line) (slide line)"
    unfolding slide_def by (rule sim0_foldl) (simp add: assms)
  then show ?thesis
    by (auto simp: combiner_def l sim0_def placed_def merged_def split: prod.splits)
qed

lemma combiner_right:
  assumes "length line = n"
  shows "combiner n line 1 sps =
         Inr (replicate (n - length (placed (rev line))) 0 @ placed (rev line),
              sps @ map (\<lambda>e. 2 ^ e) (merged (rev line)))"
proof -
  have l: "map (\<lambda>i. line ! i) (rev [0..<n]) = rev line"
    using map_nth_upt [OF assms] rev_map [of "\<lambda>i. line ! i" "[0..<n]"] by simp
  have "sim1 n sps (replicate n 0, replicate n 0, int n - 1, sps) ([], False, [])"
    by (simp add: sim1_def)
  then have "sim1 n sps (foldl (comb_step1 n) (replicate n 0, replicate n 0, int n - 1, sps) (rev line))
               (slide (rev line))"
    unfolding slide_def by (rule sim1_foldl) (simp add: assms)
  then show ?thesis
    by (auto simp: combiner_def l sim1_def placed_def merged_def split: prod.splits)
qed

subsection \<open>The list function: what it keeps\<close>

lemma slide_snoc: "slide (xs @ [x]) = slide_step (slide xs) x"
  by (simp add: slide_def)

lemma slide_Nil: "slide [] = ([], False, [])"
  by (simp add: slide_def)

lemma slide_invariant:
  assumes "P [] ([], False, [])"
    and "\<And>xs a x. P xs a \<Longrightarrow> P (xs @ [x]) (slide_step a x)"
  shows "P xs (slide xs)"
proof (induction xs rule: rev_induct)
  case Nil
  show ?case using assms(1) by (simp add: slide_Nil)
next
  case (snoc x xs)
  show ?case using assms(2) [OF snoc] by (simp add: slide_snoc)
qed

lemma tiles_snoc: "tiles (xs @ [x]) = (if x = 0 then tiles xs else tiles xs @ [x])"
  by (simp add: tiles_def)

lemma has_adj_snoc: "has_adj (ys @ [x]) = (has_adj ys \<or> (ys \<noteq> [] \<and> last ys = x))"
  by (induction ys rule: has_adj.induct) auto

lemma last_of_rev_Cons: "y # ys = rev ts \<Longrightarrow> last ts = y \<and> ts \<noteq> []"
  by (metis last_rev list.sel(1) list.simps(3) rev_is_Nil_conv rev_rev_ident hd_rev)

lemma slide_inv_step: "slide_inv xs a \<Longrightarrow> slide_inv (xs @ [x]) (slide_step a x)"
  by (cases a; cases "fst a")
     (auto simp: slide_inv_def slide_step_def tiles_snoc has_adj_snoc
           split: list.splits dest: last_of_rev_Cons)

lemma slide_inv: "slide_inv xs (slide xs)"
proof (rule slide_invariant [where P = slide_inv])
  show "slide_inv [] ([], False, [])" by (simp add: slide_inv_def tiles_def)
qed (rule slide_inv_step)

subsection \<open>Groups of one or two tiles\<close>

lemma group_inv_step:
  assumes "group_inv xs a"
  shows "group_inv (xs @ [x]) (slide_step a x)"
proof -
  obtain acc comb ev where a: "a = (acc, comb, ev)" by (cases a) auto
  from assms a obtain gs where gs: "concat gs = tiles xs" "groups_ok gs"
    "acc = rev (map tile_of gs)" "ev = map tile_of (filter (\<lambda>g. length g = 2) gs)"
    "comb \<longleftrightarrow> gs \<noteq> [] \<and> length (last gs) = 2"
    by (auto simp: group_inv_def)
  show ?thesis
  proof (cases "x = 0")
    case True
    with assms a show ?thesis by (simp add: slide_step_def group_inv_def tiles_snoc)
  next
    case x: False
    show ?thesis
    proof (cases "acc \<noteq> [] \<and> hd acc = x \<and> \<not> comb")
      case True
      then obtain y ys where acc: "acc = y # ys" "y = x" by (cases acc) auto
      from acc gs(3) have ne: "gs \<noteq> []" by auto
      then obtain gs' g where g: "gs = gs' @ [g]" by (metis rev_exhaust)
      from True gs(5) ne g have l2: "length g \<noteq> 2" by simp
      from gs(2) g have d: "g = [hd g] \<or> g = [hd g, hd g]" by (simp add: groups_ok_def)
      have "g \<noteq> [hd g, hd g]"
      proof
        assume "g = [hd g, hd g]"
        then have "length g = length [hd g, hd g]" by (rule arg_cong)
        with l2 show False by simp
      qed
      with d have "g = [hd g]" by blast
      then obtain e where e: "g = [e]" ..
      from acc gs(3) g e have ex: "e = x" "ys = rev (map tile_of gs')"
        by (auto simp: tile_of_def)
      let ?gs = "gs' @ [[x, x]]"
      have "concat ?gs = tiles (xs @ [x])"
        using gs(1) g e ex x by (simp add: tiles_snoc)
      moreover have "groups_ok ?gs" using gs(2) g by (simp add: groups_ok_def)
      moreover have "Suc x # ys = rev (map tile_of ?gs)"
        using ex by (simp add: tile_of_def)
      moreover have "ev @ [Suc x] = map tile_of (filter (\<lambda>g. length g = 2) ?gs)"
        using gs(4) g e by (simp add: tile_of_def)
      ultimately have "group_inv (xs @ [x]) (Suc x # ys, True, ev @ [Suc x])"
        unfolding group_inv_def by (auto intro!: exI [of _ ?gs])
      then show ?thesis using a acc x True by (simp add: slide_step_def)
    next
      case False
      let ?gs = "gs @ [[x]]"
      have "concat ?gs = tiles (xs @ [x])" using gs(1) x by (simp add: tiles_snoc)
      moreover have "groups_ok ?gs" using gs(2) by (simp add: groups_ok_def)
      moreover have "x # acc = rev (map tile_of ?gs)" using gs(3) by (simp add: tile_of_def)
      moreover have "ev = map tile_of (filter (\<lambda>g. length g = 2) ?gs)"
        using gs(4) by simp
      ultimately have "group_inv (xs @ [x]) (x # acc, False, ev)"
        unfolding group_inv_def by (auto intro!: exI [of _ ?gs])
      then show ?thesis using a x False
        by (cases acc) (auto simp: slide_step_def)
    qed
  qed
qed

lemma group_inv: "group_inv xs (slide xs)"
proof (rule slide_invariant [where P = group_inv])
  show "group_inv [] ([], False, [])"
    by (auto simp: group_inv_def tiles_def groups_ok_def intro!: exI [of _ "[]"])
qed (rule group_inv_step)

subsection \<open>No double merge\<close>

lemma foldl_slide_tiles: "foldl slide_step a xs = foldl slide_step a (tiles xs)"
proof (induction xs arbitrary: a)
  case Nil
  show ?case by (simp add: tiles_def)
next
  case (Cons x xs)
  show ?case
  proof (cases "x = 0")
    case True
    then have "slide_step a x = a" by (cases a) (simp add: slide_step_def)
    with True Cons show ?thesis by (simp add: tiles_def)
  next
    case False
    with Cons show ?thesis by (simp add: tiles_def)
  qed
qed

lemma slide_tiles: "slide xs = slide (tiles xs)"
  unfolding slide_def by (rule foldl_slide_tiles)

lemma slide_three: "e \<noteq> 0 \<Longrightarrow> slide [e, e, e] = ([e, Suc e], False, [Suc e])"
  by (simp add: slide_def slide_step_def)

lemma placed_length: "length (placed xs) \<le> length xs"
proof -
  have "length (placed xs) \<le> length (tiles xs)"
    using slide_inv [of xs] by (auto simp: slide_inv_def placed_def split: prod.splits)
  also have "\<dots> \<le> length xs" by (simp add: tiles_def)
  finally show ?thesis .
qed

lemma combiner_scan_order:
  assumes "length line = n" and "way = 0 \<or> way = 1"
  shows "combiner n line way sps =
         Inr (scan_order way (rev (placed (scan_order way line)) @
                replicate (n - length (placed (scan_order way line))) 0),
              sps @ map (\<lambda>e. 2 ^ e) (merged (scan_order way line)))"
  using assms combiner_left [of line n sps] combiner_right [of line n sps]
  by (auto simp: scan_order_def)

text \<open>
  Claim C4. One call of \<open>_combiner\<close> cuts the tiles of the line, in the order the loop
  visits them, into consecutive groups of one tile or of two equal tiles; every tile of the
  new line is one group, a single tile unchanged or a pair merged once, and the score
  events are the values of the merged pairs. No new tile comes from more than one merge.
  Three equal tiles in a row give one merged tile followed by the third tile, with one
  score event; \<open>[1, 1, 1, 0]\<close> moved to the left is \<open>[2, 1, 0, 0]\<close> with the
  event 4.
\<close>

theorem no_double_merge:
  assumes "length line = n" and "way = 0 \<or> way = 1"
  shows "(\<exists>gs. concat gs = tiles (scan_order way line) \<and> groups_ok gs \<and>
            combiner n line way sps =
              Inr (scan_order way (map tile_of gs @ replicate (n - length gs) 0),
                   sps @ map (\<lambda>g. 2 ^ tile_of g) (filter (\<lambda>g. length g = 2) gs))) \<and>
         (e \<noteq> 0 \<and> tiles (scan_order way line) = [e, e, e] \<longrightarrow>
            combiner n line way sps =
              Inr (scan_order way ([Suc e, e] @ replicate (n - 2) 0), sps @ [2 ^ Suc e]))"
proof
  let ?o = "scan_order way line"
  obtain acc comb ev where s: "slide ?o = (acc, comb, ev)" by (cases "slide ?o") auto
  with group_inv [of ?o] obtain gs where gs: "concat gs = tiles ?o" "groups_ok gs"
    "acc = rev (map tile_of gs)" "ev = map tile_of (filter (\<lambda>g. length g = 2) gs)"
    by (auto simp: group_inv_def)
  have "placed ?o = rev (map tile_of gs)" "merged ?o = map tile_of (filter (\<lambda>g. length g = 2) gs)"
    using s gs by (simp_all add: placed_def merged_def)
  then have "combiner n line way sps =
      Inr (scan_order way (map tile_of gs @ replicate (n - length gs) 0),
           sps @ map (\<lambda>g. 2 ^ tile_of g) (filter (\<lambda>g. length g = 2) gs))"
    using combiner_scan_order [OF assms, of sps] by (simp add: comp_def)
  with gs show "\<exists>gs. concat gs = tiles ?o \<and> groups_ok gs \<and>
            combiner n line way sps =
              Inr (scan_order way (map tile_of gs @ replicate (n - length gs) 0),
                   sps @ map (\<lambda>g. 2 ^ tile_of g) (filter (\<lambda>g. length g = 2) gs))"
    by blast
next
  let ?o = "scan_order way line"
  show "e \<noteq> 0 \<and> tiles ?o = [e, e, e] \<longrightarrow>
            combiner n line way sps =
              Inr (scan_order way ([Suc e, e] @ replicate (n - 2) 0), sps @ [2 ^ Suc e])"
  proof
    assume h: "e \<noteq> 0 \<and> tiles ?o = [e, e, e]"
    then have "slide ?o = ([e, Suc e], False, [Suc e])"
      using slide_tiles [of ?o] slide_three by simp
    then have "placed ?o = [e, Suc e]" "merged ?o = [Suc e]"
      by (simp_all add: placed_def merged_def)
    then show "combiner n line way sps =
              Inr (scan_order way ([Suc e, e] @ replicate (n - 2) 0), sps @ [2 ^ Suc e])"
      using combiner_scan_order [OF assms, of sps] by (simp add: numeral_2_eq_2)
  qed
qed

theorem no_double_merge_witness:
  "length [1, 1, 1, 0 :: nat] = 4 \<and>
   (\<exists>gs. concat gs = [1, 1, 1] \<and> groups_ok gs \<and>
      combiner 4 [1, 1, 1, 0] 0 ([] :: 32 word list) =
        Inr (map tile_of gs @ replicate (4 - length gs) 0,
             map (\<lambda>g. 2 ^ tile_of g) (filter (\<lambda>g. length g = 2) gs))) \<and>
   combiner 4 [1, 1, 1, 0] 0 ([] :: 32 word list) = Inr ([2, 1, 0, 0], [4])"
proof -
  have h: "length [1, 1, 1, 0 :: nat] = 4" "(0::int) = 0 \<or> (0::int) = 1" by simp_all
  have t: "tiles [1, 1, 1, 0] = [1, 1, 1]" by (simp add: tiles_def)
  note inst = no_double_merge [OF h, of "[] :: 32 word list" 1]
  have a: "\<exists>gs. concat gs = [1, 1, 1] \<and> groups_ok gs \<and>
      combiner 4 [1, 1, 1, 0] 0 ([] :: 32 word list) =
        Inr (map tile_of gs @ replicate (4 - length gs) 0,
             map (\<lambda>g. 2 ^ tile_of g) (filter (\<lambda>g. length g = 2) gs))"
    using inst [THEN conjunct1] t by (simp add: scan_order_def)
  have b: "combiner 4 [1, 1, 1, 0] 0 ([] :: 32 word list) = Inr ([2, 1, 0, 0], [4])"
    using inst [THEN conjunct2] t by (simp add: scan_order_def numeral_2_eq_2)
  from h(1) a b show ?thesis by (intro conjI)
qed

subsection \<open>The move of a board, row by row\<close>

lemma combiner_moved:
  assumes "length line = n" and "way = 0 \<or> way = 1"
  shows "combiner n line way sps = Inr (moved_line way line, sps @ line_events way line)"
  using combiner_scan_order [OF assms, of sps] assms(1)
  by (simp add: moved_line_def line_events_def)

lemma scan_order_length: "length (scan_order way line) = length line"
  by (simp add: scan_order_def)

lemma moved_line_length: "length (moved_line way line) = length line"
  using placed_length [of "scan_order way line"]
  by (simp add: moved_line_def scan_order_length)

lemma move_rows_gen:
  assumes "way = 0 \<or> way = 1"
    and "\<forall>row \<in> set b. length row = n"
    and "\<forall>r \<in> set rs. r < length b"
    and "distinct rs"
  shows "move_rows n way rs (b, sps) =
         Inr (map (\<lambda>r. if r \<in> set rs then map to_uint8 (moved_line way (b ! r)) else b ! r)
                [0..<length b],
              sps @ concat (map (\<lambda>r. line_events way (b ! r)) rs))"
  using assms(2-4)
proof (induction rs arbitrary: b sps)
  case Nil
  then show ?case by (simp add: map_nth)
next
  case (Cons r rs)
  let ?nl = "moved_line way (b ! r)"
  let ?b1 = "b[r := map to_uint8 ?nl]"
  have r: "r < length b" "r \<notin> set rs" using Cons.prems by auto
  have len: "length (b ! r) = n" using Cons.prems(1) r(1) by simp
  have c: "combiner n (b ! r) way sps = Inr (?nl, sps @ line_events way (b ! r))"
    by (rule combiner_moved [OF len assms(1)])
  have rows: "\<forall>row \<in> set ?b1. length row = n"
  proof
    fix row assume "row \<in> set ?b1"
    then have "row \<in> insert (map to_uint8 ?nl) (set b)"
      using set_update_subset_insert by fastforce
    then show "length row = n" using Cons.prems(1) len by (auto simp: moved_line_length)
  qed
  have same: "?b1 ! k = b ! k" if "k \<in> set rs" for k
    using that r by (cases "k = r") auto
  have ih: "move_rows n way rs (?b1, sps @ line_events way (b ! r)) =
         Inr (map (\<lambda>k. if k \<in> set rs then map to_uint8 (moved_line way (?b1 ! k)) else ?b1 ! k)
                [0..<length ?b1],
              (sps @ line_events way (b ! r)) @ concat (map (\<lambda>k. line_events way (?b1 ! k)) rs))"
    using Cons.prems by (intro Cons.IH rows) auto
  have m1: "map (\<lambda>k. if k \<in> set rs then map to_uint8 (moved_line way (?b1 ! k)) else ?b1 ! k)
                [0..<length ?b1] =
            map (\<lambda>k. if k \<in> set (r # rs) then map to_uint8 (moved_line way (b ! k)) else b ! k)
                [0..<length b]"
    using r by (auto simp: nth_list_update)
  have m2: "map (\<lambda>k. line_events way (?b1 ! k) :: 'a word list) rs =
            map (\<lambda>k. line_events way (b ! k)) rs"
    using same by (intro map_cong) auto
  have ih': "move_rows n way rs (?b1, sps @ line_events way (b ! r)) =
         Inr (map (\<lambda>k. if k \<in> set (r # rs) then map to_uint8 (moved_line way (b ! k)) else b ! k)
                [0..<length b],
              sps @ concat (map (\<lambda>k. line_events way (b ! k)) (r # rs)))"
    using ih unfolding m1 m2 by simp
  show ?case unfolding move_rows.simps using c ih' by simp
qed

lemma move_rows_all:
  assumes "way = 0 \<or> way = 1" and "length b = n" and "\<forall>row \<in> set b. length row = n"
  shows "move_rows n way [0..<n] (b, sps) =
         Inr (map (\<lambda>row. map to_uint8 (moved_line way row)) b,
              sps @ concat (map (line_events way) b))"
proof -
  have "move_rows n way [0..<n] (b, sps) =
         Inr (map (\<lambda>r. if r \<in> set [0..<n] then map to_uint8 (moved_line way (b ! r)) else b ! r)
                [0..<length b],
              sps @ concat (map (\<lambda>r. line_events way (b ! r)) [0..<n]))"
    using assms by (intro move_rows_gen) auto
  moreover have "map (\<lambda>r. if r \<in> set [0..<n] then map to_uint8 (moved_line way (b ! r)) else b ! r)
                [0..<length b] = map (\<lambda>row. map to_uint8 (moved_line way row)) b"
    using assms(2) by (auto intro!: nth_equalityI)
  moreover have "map (\<lambda>r. line_events way (b ! r) :: 'a word list) [0..<n] = map (line_events way) b"
    using assms(2) by (auto intro!: nth_equalityI)
  ultimately show ?thesis by simp
qed

subsection \<open>The move of a board, column by column\<close>

lemma set_col_nth:
  "length b = length nl \<Longrightarrow> r < length b \<Longrightarrow> set_col b c nl ! r = (b ! r)[c := to_uint8 (nl ! r)]"
  by (simp add: set_col_def)

lemma set_col_length: "length b = length nl \<Longrightarrow> length (set_col b c nl) = length b"
  by (simp add: set_col_def)

lemma set_col_square:
  assumes "square n b" and "length nl = n"
  shows "square n (set_col b c nl)"
proof -
  have "length row = n" if "row \<in> set (set_col b c nl)" for row
  proof -
    from that obtain r where "r < length (set_col b c nl)" "row = set_col b c nl ! r"
      by (auto simp: in_set_conv_nth)
    then show ?thesis using assms by (simp add: set_col_length set_col_nth square_def)
  qed
  then show ?thesis using assms by (simp add: square_def set_col_length)
qed

lemma get_col_set_col:
  assumes "length b = n" and "length nl = n" and "c' \<noteq> c"
  shows "get_col n (set_col b c nl) c' = get_col n b c'"
  using assms by (simp add: get_col_def set_col_nth)

lemma get_col_length: "length (get_col n b c) = n"
  by (simp add: get_col_def)

lemma move_cols_gen:
  assumes "way = 0 \<or> way = 1"
    and "square n b"
    and "\<forall>c \<in> set cs. c < n"
    and "distinct cs"
  shows "move_cols n way cs (b, sps) =
         Inr (map (\<lambda>r. map (\<lambda>c. if c \<in> set cs
                                  then to_uint8 (moved_line way (get_col n b c) ! r)
                                  else b ! r ! c) [0..<n]) [0..<n],
              sps @ concat (map (\<lambda>c. line_events way (get_col n b c)) cs))"
  using assms(2-4)
proof (induction cs arbitrary: b sps)
  case Nil
  have "map (\<lambda>r. map (\<lambda>c. b ! r ! c) [0..<n]) [0..<n] = b"
    using Nil.prems(1) by (auto simp: square_def intro!: nth_equalityI)
  then show ?case by simp
next
  case (Cons c cs)
  let ?nl = "moved_line way (get_col n b c)"
  let ?b1 = "set_col b c ?nl"
  have c: "c < n" "c \<notin> set cs" using Cons.prems by auto
  have lb: "length b = n" and lnl: "length ?nl = n"
    using Cons.prems(1) by (simp_all add: square_def moved_line_length get_col_length)
  have comb: "combiner n (get_col n b c) way sps =
              Inr (?nl, sps @ line_events way (get_col n b c))"
    by (rule combiner_moved [OF get_col_length assms(1)])
  have sq: "square n ?b1" by (rule set_col_square [OF Cons.prems(1) lnl])
  have ih: "move_cols n way cs (?b1, sps @ line_events way (get_col n b c)) =
         Inr (map (\<lambda>r. map (\<lambda>k. if k \<in> set cs
                                  then to_uint8 (moved_line way (get_col n ?b1 k) ! r)
                                  else ?b1 ! r ! k) [0..<n]) [0..<n],
              (sps @ line_events way (get_col n b c)) @
              concat (map (\<lambda>k. line_events way (get_col n ?b1 k)) cs))"
    using Cons.prems by (intro Cons.IH sq) auto
  have same: "get_col n ?b1 k = get_col n b k" if "k \<in> set cs" for k
    using that c by (intro get_col_set_col lb lnl) auto
  have m1: "map (\<lambda>r. map (\<lambda>k. if k \<in> set cs
                                  then to_uint8 (moved_line way (get_col n ?b1 k) ! r)
                                  else ?b1 ! r ! k) [0..<n]) [0..<n] =
            map (\<lambda>r. map (\<lambda>k. if k \<in> set (c # cs)
                                  then to_uint8 (moved_line way (get_col n b k) ! r)
                                  else b ! r ! k) [0..<n]) [0..<n]"
  proof (intro map_cong refl)
    fix r k assume r: "r \<in> set [0..<n]" and k: "k \<in> set [0..<n]"
    have row: "?b1 ! r = (b ! r)[c := to_uint8 (?nl ! r)]"
      using r lb lnl by (simp add: set_col_nth)
    have lr: "length (b ! r) = n" using Cons.prems(1) r lb by (simp add: square_def)
    show "(if k \<in> set cs then to_uint8 (moved_line way (get_col n ?b1 k) ! r) else ?b1 ! r ! k) =
          (if k \<in> set (c # cs) then to_uint8 (moved_line way (get_col n b k) ! r) else b ! r ! k)"
      using same c k lr by (auto simp: row)
  qed
  have m2: "map (\<lambda>k. line_events way (get_col n ?b1 k) :: 'a word list) cs =
            map (\<lambda>k. line_events way (get_col n b k)) cs"
    using same by (intro map_cong) auto
  have ih': "move_cols n way cs (?b1, sps @ line_events way (get_col n b c)) =
         Inr (map (\<lambda>r. map (\<lambda>k. if k \<in> set (c # cs)
                                  then to_uint8 (moved_line way (get_col n b k) ! r)
                                  else b ! r ! k) [0..<n]) [0..<n],
              sps @ concat (map (\<lambda>k. line_events way (get_col n b k)) (c # cs)))"
    using ih unfolding m1 m2 by simp
  show ?case unfolding move_cols.simps using comb ih' by simp
qed

lemma tr_nth: "c < n \<Longrightarrow> tr n b ! c = get_col n b c"
  by (simp add: tr_def)

lemma tr_length: "length (tr n b) = n"
  by (simp add: tr_def)

lemma move_cols_all:
  assumes "way = 0 \<or> way = 1" and "square n b"
  shows "move_cols n way [0..<n] (b, sps) =
         Inr (tr n (map (\<lambda>l. map to_uint8 (moved_line way l)) (tr n b)),
              sps @ concat (map (line_events way) (tr n b)))"
proof -
  have "move_cols n way [0..<n] (b, sps) =
         Inr (map (\<lambda>r. map (\<lambda>c. if c \<in> set [0..<n]
                                  then to_uint8 (moved_line way (get_col n b c) ! r)
                                  else b ! r ! c) [0..<n]) [0..<n],
              sps @ concat (map (\<lambda>c. line_events way (get_col n b c)) [0..<n]))"
    using assms by (intro move_cols_gen) auto
  moreover have "map (\<lambda>r. map (\<lambda>c. if c \<in> set [0..<n]
                                  then to_uint8 (moved_line way (get_col n b c) ! r)
                                  else b ! r ! c) [0..<n]) [0..<n] =
        tr n (map (\<lambda>l. map to_uint8 (moved_line way l)) (tr n b))"
    by (auto simp: tr_def get_col_def moved_line_length intro!: nth_equalityI)
  moreover have "map (\<lambda>c. line_events way (get_col n b c) :: 'a word list) [0..<n] =
                 map (line_events way) (tr n b)"
    by (simp add: tr_def)
  ultimately show ?thesis by simp
qed

subsection \<open>The value of a line\<close>







lemma placed_facts:
  "0 \<notin> set (placed xs)" "(\<Sum>e\<leftarrow>placed xs. (2::nat) ^ e) = (\<Sum>e\<leftarrow>tiles xs. 2 ^ e)"
  "length (placed xs) + length (merged xs) = length (tiles xs)"
  "merged xs = [] \<Longrightarrow> placed xs = rev (tiles xs)"
  "merged xs = [] \<longleftrightarrow> \<not> has_adj (tiles xs)"
  using slide_inv [of xs]
  by (auto simp: slide_inv_def placed_def merged_def split: prod.splits)


lemma scan_order_set: "set (scan_order way xs) = set xs"
  by (simp add: scan_order_def)

lemma placed_bound:
  assumes "\<forall>x \<in> set xs. x < g"
  shows "\<forall>y \<in> set (placed xs). y \<le> g"
proof
  fix y assume y: "y \<in> set (placed xs)"
  obtain acc comb ev where s: "slide xs = (acc, comb, ev)" by (cases "slide xs") auto
  with group_inv [of xs] obtain gs where gs: "concat gs = tiles xs" "groups_ok gs"
    "acc = rev (map tile_of gs)" by (auto simp: group_inv_def)
  from y s gs(3) obtain gr where gr: "gr \<in> set gs" "y = tile_of gr"
    by (auto simp: placed_def)
  from gs(2) gr(1) have d: "gr = [hd gr] \<or> gr = [hd gr, hd gr]"
    by (auto simp: groups_ok_def list_all_iff)
  then have "gr \<noteq> []" by auto
  then have "hd gr \<in> set (concat gs)" using gr(1) by (auto intro: hd_in_set)
  then have "hd gr \<in> set xs" using gs(1) by (simp add: tiles_def)
  then have "hd gr < g" using assms by simp
  then show "y \<le> g" using gr(2) by (simp add: tile_of_def)
qed

lemma moved_line_bound:
  assumes "\<forall>x \<in> set line. x < g"
  shows "\<forall>y \<in> set (moved_line way line). y \<le> g"
  using placed_bound [of "scan_order way line" g] assms
  by (auto simp: moved_line_def scan_order_set)

lemma to_uint8_id: "x < 256 \<Longrightarrow> to_uint8 x = x"
  by (simp add: to_uint8_def)

lemma map_to_uint8_id: "\<forall>x \<in> set xs. x < 256 \<Longrightarrow> map to_uint8 xs = xs"
  by (induction xs) (auto simp: to_uint8_id)


subsection \<open>Value conservation\<close>

lemma wf_board_square: "wf_board n b \<Longrightarrow> square n b"
  by (auto simp: wf_board_def square_def list_all_iff)



lemma tr_square: "square n (tr n b)"
  by (auto simp: square_def tr_def get_col_def)

lemma tr_cell: "r < n \<Longrightarrow> c < n \<Longrightarrow> tr n b ! c ! r = b ! r ! c"
  by (simp add: tr_def get_col_def)

lemma tr_tr: "square n b \<Longrightarrow> tr n (tr n b) = b"
  by (auto simp: square_def tr_def get_col_def intro!: nth_equalityI)



lemma apply_move_rows:
  assumes "square n b" and "action = 0 \<or> action = 1"
  shows "apply_move n b action sps =
         Inr (map (\<lambda>row. map to_uint8 (moved_line action row)) b,
              sps @ concat (map (line_events action) b))"
  using assms move_rows_all [of action b n sps]
  by (auto simp: apply_move_def square_def)

lemma apply_move_cols:
  assumes "square n b" and "action = 2 \<or> action = 3"
  shows "apply_move n b action sps =
         Inr (tr n (map (\<lambda>l. map to_uint8 (moved_line (action - 2) l)) (tr n b)),
              sps @ concat (map (line_events (action - 2)) (tr n b)))"
  using assms move_cols_all [of "action - 2" n b sps]
  by (auto simp: apply_move_def)

lemma map_moved_square:
  "square n b \<Longrightarrow> square n (map (\<lambda>l. map to_uint8 (moved_line way l)) b)"
  by (auto simp: square_def moved_line_length)

lemma tr_cells:
  assumes "square n b" and "row \<in> set (tr n b)" and "x \<in> set row"
  shows "\<exists>r \<in> set b. x \<in> set r"
proof -
  from assms(2,3) obtain c r where cr: "c < n" "r < n" "x = b ! r ! c"
    by (auto simp: tr_def get_col_def)
  have "b ! r \<in> set b" using assms(1) cr(2) by (simp add: square_def)
  moreover from this have "x \<in> set (b ! r)" using assms(1) cr by (simp add: square_def)
  ultimately show ?thesis by blast
qed




subsection \<open>When a line changes\<close>

lemma tiles_Cons: "tiles (x # xs) = (if x = 0 then tiles xs else x # tiles xs)"
  by (simp add: tiles_def)

lemma tiles_Nil: "tiles [] = []"
  by (simp add: tiles_def)

lemma tiles_Nil_iff: "tiles xs = [] \<longleftrightarrow> xs = replicate (length xs) 0"
  by (induction xs) (auto simp: tiles_Cons tiles_Nil)

lemma has_gap_tiles: "has_gap xs \<Longrightarrow> tiles xs \<noteq> []"
  by (induction xs) (auto simp: tiles_Cons)

lemma tiles_nonzero: "0 \<notin> set (tiles xs)"
  by (simp add: tiles_def)

lemma tiles_length: "length (tiles xs) \<le> length xs"
  by (simp add: tiles_def)

lemma compact_iff:
  "\<not> has_gap xs \<longleftrightarrow> xs = tiles xs @ replicate (length xs - length (tiles xs)) 0"
proof (induction xs)
  case Nil
  show ?case by (simp add: tiles_def)
next
  case (Cons x xs)
  show ?case
  proof (cases "x = 0")
    case False
    have "Suc (length xs) - Suc (length (tiles xs)) = length xs - length (tiles xs)" by simp
    with False Cons show ?thesis by (simp add: tiles_Cons)
  next
    case True
    show ?thesis
    proof (cases "tiles xs = []")
      case t: True
      then have "xs = replicate (length xs) 0" by (simp add: tiles_Nil_iff)
      moreover have "\<not> has_gap xs" using t has_gap_tiles by blast
      ultimately show ?thesis using True t by (simp add: tiles_Cons)
    next
      case f: False
      then obtain t ts where ts: "tiles xs = t # ts" by (cases "tiles xs") auto
      then have "t \<noteq> 0" using tiles_nonzero [of xs] by auto
      then show ?thesis using True f ts by (simp add: tiles_Cons)
    qed
  qed
qed

lemma has_adj_Cons: "has_adj ts \<Longrightarrow> has_adj (x # ts)"
  by (cases ts) auto

lemma raw_adj_has_adj: "raw_adj xs \<Longrightarrow> has_adj (tiles xs)"
proof (induction xs rule: raw_adj.induct)
  case (1 x y zs)
  show ?case
  proof (cases "x \<noteq> 0 \<and> x = y")
    case True
    then show ?thesis by (simp add: tiles_Cons)
  next
    case False
    with 1 have "has_adj (tiles (y # zs))" by auto
    then show ?thesis by (auto simp: tiles_Cons [of x] intro: has_adj_Cons)
  qed
qed simp_all

lemma has_adj_raw_adj: "0 \<notin> set ts \<Longrightarrow> has_adj ts \<Longrightarrow> raw_adj (ts @ replicate k 0)"
proof (induction ts rule: has_adj.induct)
  case (1 x y zs)
  then show ?case by auto
qed simp_all

lemma compact_adj:
  assumes "\<not> has_gap xs" and "has_adj (tiles xs)"
  shows "raw_adj xs"
proof -
  have "raw_adj (tiles xs @ replicate (length xs - length (tiles xs)) 0)"
    by (rule has_adj_raw_adj [OF tiles_nonzero assms(2)])
  then show ?thesis using assms(1) compact_iff [of xs] by simp
qed

lemma tiles_append_zeros: "tiles (xs @ replicate k 0) = tiles xs"
  by (simp add: tiles_def)

lemma tiles_map_length: "length (tiles (map f xs)) \<le> length (tiles xs)" if "f 0 = 0" for f :: "nat \<Rightarrow> nat"
  using that by (induction xs) (auto simp: tiles_Cons tiles_Nil)

lemma tiles_self: "0 \<notin> set xs \<Longrightarrow> tiles xs = xs"
  by (induction xs) (auto simp: tiles_Cons tiles_Nil)

text \<open>The line the move to the left writes back differs from the line it read exactly
  when the line has a gap or two equal neighbours.\<close>

lemma line_changed_left:
  assumes "\<forall>x \<in> set line. x < 256"
  shows "map to_uint8 (moved_line 0 line) \<noteq> line \<longleftrightarrow> has_gap line \<or> raw_adj line"
proof (cases "merged line = []")
  case True
  then have p: "placed line = rev (tiles line)" and na: "\<not> has_adj (tiles line)"
    using placed_facts(4,5) by blast+
  have m: "moved_line 0 line = tiles line @ replicate (length line - length (tiles line)) 0"
    using p by (simp add: moved_line_def scan_order_def)
  have "\<forall>x \<in> set (moved_line 0 line). x < 256"
    using assms unfolding m by (auto simp: tiles_def)
  then have "map to_uint8 (moved_line 0 line) = moved_line 0 line" by (rule map_to_uint8_id)
  moreover have "\<not> raw_adj line" using na raw_adj_has_adj by blast
  ultimately show ?thesis using compact_iff [of line] m by auto
next
  case False
  then have a: "has_adj (tiles line)" using placed_facts(5) by blast
  have "length (placed line) < length (tiles line)"
    using placed_facts(3) [of line] False by (cases "merged line") auto
  moreover have "tiles (moved_line 0 line) = rev (placed line)"
    using placed_facts(1) [of line]
    by (simp add: moved_line_def scan_order_def tiles_append_zeros tiles_self)
  moreover have "length (tiles (map to_uint8 (moved_line 0 line))) \<le> length (tiles (moved_line 0 line))"
    by (rule tiles_map_length) (simp add: to_uint8_def)
  ultimately have "length (tiles (map to_uint8 (moved_line 0 line))) < length (tiles line)"
    by simp
  then have "map to_uint8 (moved_line 0 line) \<noteq> line" by auto
  moreover have "has_gap line \<or> raw_adj line" using compact_adj a by blast
  ultimately show ?thesis by simp
qed

subsection \<open>Gaps and equal neighbours by index\<close>

lemma tiles_ne_iff: "tiles xs \<noteq> [] \<longleftrightarrow> (\<exists>j<length xs. xs ! j \<noteq> 0)"
  by (induction xs) (auto simp: tiles_Cons tiles_Nil Ex_less_Suc2)

lemma has_gap_iff:
  "has_gap xs \<longleftrightarrow> (\<exists>j<length xs. \<exists>i<j. xs ! i = 0 \<and> xs ! j \<noteq> 0)"
proof (induction xs)
  case Nil
  show ?case by simp
next
  case (Cons x xs)
  have "(\<exists>j<length (x # xs). \<exists>i<j. (x # xs) ! i = 0 \<and> (x # xs) ! j \<noteq> 0) \<longleftrightarrow>
        (\<exists>j<length xs. (x = 0 \<and> xs ! j \<noteq> 0) \<or> (\<exists>i<j. xs ! i = 0 \<and> xs ! j \<noteq> 0))"
    by (simp add: Ex_less_Suc2)
  also have "\<dots> \<longleftrightarrow> (x = 0 \<and> tiles xs \<noteq> []) \<or> has_gap xs"
    unfolding Cons.IH tiles_ne_iff by blast
  finally show ?case by simp
qed

lemma raw_adj_iff:
  "raw_adj xs \<longleftrightarrow> (\<exists>i<length xs - 1. xs ! i \<noteq> 0 \<and> xs ! i = xs ! Suc i)"
proof (induction xs rule: raw_adj.induct)
  case (1 x y zs)
  have "(\<exists>i<length (x # y # zs) - 1. (x # y # zs) ! i \<noteq> 0 \<and> (x # y # zs) ! i = (x # y # zs) ! Suc i)
        \<longleftrightarrow> (x \<noteq> 0 \<and> x = y) \<or> (\<exists>i<length (y # zs) - 1. (y # zs) ! i \<noteq> 0 \<and> (y # zs) ! i = (y # zs) ! Suc i)"
    by (simp add: Ex_less_Suc2)
  then show ?case using 1 by simp
qed simp_all

lemma raw_adj_rev: "raw_adj (rev xs) = raw_adj xs"
proof -
  have dir: "raw_adj (rev ys)" if "raw_adj ys" for ys :: "nat list"
  proof -
    from that obtain i where i: "i < length ys - 1" "ys ! i \<noteq> 0" "ys ! i = ys ! Suc i"
      by (auto simp: raw_adj_iff)
    let ?k = "length ys - 2 - i"
    have k: "?k < length (rev ys) - 1" using i(1) by simp
    have a: "rev ys ! ?k = ys ! Suc i" using i(1) by (simp add: rev_nth) 
    have "length ys - Suc (Suc (length ys - 2 - i)) = i" using i(1) by simp
    then have b: "rev ys ! Suc ?k = ys ! i" using i(1) by (simp add: rev_nth)
    show ?thesis unfolding raw_adj_iff using k a b i(2,3) by metis
  qed
  show ?thesis using dir [of xs] dir [of "rev xs"] by auto
qed

lemma moved_line_right: "moved_line 1 line = rev (moved_line 0 (rev line))"
  by (simp add: moved_line_def scan_order_def)

lemma line_changed_right:
  assumes "\<forall>x \<in> set line. x < 256"
  shows "map to_uint8 (moved_line 1 line) \<noteq> line \<longleftrightarrow> has_gap (rev line) \<or> raw_adj line"
proof -
  have "map to_uint8 (moved_line 1 line) \<noteq> line \<longleftrightarrow>
        rev (map to_uint8 (moved_line 0 (rev line))) \<noteq> line"
    by (simp add: moved_line_right rev_map)
  also have "\<dots> \<longleftrightarrow> map to_uint8 (moved_line 0 (rev line)) \<noteq> rev line"
    by (metis rev_rev_ident)
  also have "\<dots> \<longleftrightarrow> has_gap (rev line) \<or> raw_adj (rev line)"
    by (rule line_changed_left) (simp add: assms)
  finally show ?thesis by (simp add: raw_adj_rev)
qed

lemma line_changed:
  assumes "\<forall>x \<in> set line. x < 256" and "way = 0 \<or> way = 1"
  shows "map to_uint8 (moved_line way line) \<noteq> line \<longleftrightarrow>
         has_gap (scan_order way line) \<or> raw_adj line"
  using assms line_changed_left [of line] line_changed_right [of line]
  by (auto simp: scan_order_def)

subsection \<open>The scan of the slide check\<close>

lemma any_xor_and:
  assumes "length l = length ch"
  shows "list_ex (\<lambda>(c, l). (c \<noteq> l) \<and> c) (zip ch l) \<longleftrightarrow> (\<exists>p<length ch. ch ! p \<and> \<not> l ! p)"
  using assms by (auto simp: list_ex_iff set_zip)

lemma or_into_nth:
  assumes "length l = length ch" and "p < length ch"
  shows "map (\<lambda>(c, l). c \<or> l) (zip ch l) ! p = (ch ! p \<or> l ! p)"
  using assms by simp

lemma check_legal_loop_iff:
  assumes "\<forall>l \<in> set ls. length l = length ch"
  shows "check_legal_loop ch ls \<longleftrightarrow>
         (\<exists>j<length ls. \<exists>p<length ch. \<not> ls ! j ! p \<and> (ch ! p \<or> (\<exists>i<j. ls ! i ! p)))"
  using assms
proof (induction ls arbitrary: ch)
  case Nil
  show ?case by simp
next
  case (Cons l ls)
  let ?ch = "map (\<lambda>(c, l). c \<or> l) (zip ch l)"
  have len: "length l = length ch" and len': "length ?ch = length ch"
    using Cons.prems by simp_all
  have ih: "check_legal_loop ?ch ls \<longleftrightarrow>
         (\<exists>j<length ls. \<exists>p<length ch. \<not> ls ! j ! p \<and> ((ch ! p \<or> l ! p) \<or> (\<exists>i<j. ls ! i ! p)))"
  proof -
    have "check_legal_loop ?ch ls \<longleftrightarrow>
         (\<exists>j<length ls. \<exists>p<length ?ch. \<not> ls ! j ! p \<and> (?ch ! p \<or> (\<exists>i<j. ls ! i ! p)))"
      using Cons.prems by (intro Cons.IH) (simp add: len')
    also have "\<dots> \<longleftrightarrow>
         (\<exists>j<length ls. \<exists>p<length ch. \<not> ls ! j ! p \<and> ((ch ! p \<or> l ! p) \<or> (\<exists>i<j. ls ! i ! p)))"
      using len by (simp add: or_into_nth len' cong: conj_cong)
    finally show ?thesis .
  qed
  have "check_legal_loop ch (l # ls) \<longleftrightarrow>
        (\<exists>p<length ch. ch ! p \<and> \<not> l ! p) \<or> check_legal_loop ?ch ls"
    unfolding check_legal_loop.simps any_xor_and [OF len] by auto
  also have "\<dots> \<longleftrightarrow> (\<exists>j<length (l # ls). \<exists>p<length ch.
        \<not> (l # ls) ! j ! p \<and> (ch ! p \<or> (\<exists>i<j. (l # ls) ! i ! p)))"
    unfolding ih by (simp add: Ex_less_Suc2) blast
  finally show ?case .
qed

lemma check_legal_loop_lines:
  assumes "L \<noteq> []" and "\<forall>l \<in> set L. length l = m"
  shows "check_legal_loop (hd L) (tl L) \<longleftrightarrow>
         (\<exists>j<length L. \<exists>i<j. \<exists>p<m. L ! i ! p \<and> \<not> L ! j ! p)"
proof -
  from assms(1) obtain ch ls where L: "L = ch # ls" by (cases L) auto
  have lens: "\<forall>l \<in> set ls. length l = length ch" "length ch = m" using assms(2) L by auto
  have "check_legal_loop ch ls \<longleftrightarrow>
        (\<exists>j<length ls. \<exists>p<m. \<not> ls ! j ! p \<and> (ch ! p \<or> (\<exists>i<j. ls ! i ! p)))"
    using check_legal_loop_iff [OF lens(1)] lens(2) by simp
  also have "\<dots> \<longleftrightarrow> (\<exists>j<length (ch # ls). \<exists>i<j. \<exists>p<m. (ch # ls) ! i ! p \<and> \<not> (ch # ls) ! j ! p)"
    by (simp add: Ex_less_Suc2) blast
  finally show ?thesis by (simp add: L)
qed

lemma has_gap_rev_iff:
  "has_gap (rev xs) \<longleftrightarrow> (\<exists>j<length xs. \<exists>i<j. xs ! i \<noteq> 0 \<and> xs ! j = 0)"
proof
  assume "has_gap (rev xs)"
  then obtain j i where ji: "j < length xs" "i < j" "rev xs ! i = 0" "rev xs ! j \<noteq> 0"
    by (auto simp: has_gap_iff)
  let ?j = "length xs - 1 - i" and ?i = "length xs - 1 - j"
  have "?j < length xs" "?i < ?j" "xs ! ?i \<noteq> 0" "xs ! ?j = 0"
    using ji by (simp_all add: rev_nth)
  then show "\<exists>j<length xs. \<exists>i<j. xs ! i \<noteq> 0 \<and> xs ! j = 0" by blast
next
  assume "\<exists>j<length xs. \<exists>i<j. xs ! i \<noteq> 0 \<and> xs ! j = 0"
  then obtain j i where ji: "j < length xs" "i < j" "xs ! i \<noteq> 0" "xs ! j = 0" by blast
  let ?j = "length xs - 1 - i" and ?i = "length xs - 1 - j"
  have "length xs - Suc (length xs - 1 - i) = i" "length xs - Suc (length xs - 1 - j) = j"
    using ji by simp_all
  then have "?j < length (rev xs)" "?i < ?j" "rev xs ! ?i = 0" "rev xs ! ?j \<noteq> 0"
    using ji by (simp_all add: rev_nth)
  then show "has_gap (rev xs)" unfolding has_gap_iff by blast
qed

subsection \<open>The two checks of legality, line by line\<close>

lemma upt_from_1: "0 < n \<Longrightarrow> [0..<n] = 0 # [1..<n]"
  by (simp add: upt_rec)

lemma rev_upt_shift: "rev [0..<n - 1] = map (\<lambda>i. n - 1 - i) [1..<n]"
  by (rule nth_equalityI) (auto simp: rev_nth)

lemma loop_cells:
  assumes "0 < n"
  shows "check_legal_loop (map (g 0) [0..<n]) (map (\<lambda>i. map (g i) [0..<n]) [1..<n]) \<longleftrightarrow>
         (\<exists>j<n. \<exists>i<j. \<exists>p<n. g i p \<and> \<not> g j p)"
proof -
  let ?L = "map (\<lambda>i. map (g i) [0..<n]) [0..<n]"
  have L: "?L = map (g 0) [0..<n] # map (\<lambda>i. map (g i) [0..<n]) [1..<n]"
    using upt_from_1 [OF assms] by (metis list.simps(9))
  have "check_legal_loop (hd ?L) (tl ?L) \<longleftrightarrow>
        (\<exists>j<length ?L. \<exists>i<j. \<exists>p<n. ?L ! i ! p \<and> \<not> ?L ! j ! p)"
    using assms by (intro check_legal_loop_lines) auto
  also have "\<dots> \<longleftrightarrow> (\<exists>j<n. \<exists>i<j. \<exists>p<n. g i p \<and> \<not> g j p)"
    by (simp cong: conj_cong)
  finally show ?thesis unfolding L by simp
qed

lemma occ_col_fun: "occ_col n b = (\<lambda>i. map (\<lambda>r. b ! r ! i \<noteq> 0) [0..<n])"
  by (rule ext) (simp add: occ_col_def)

lemma check_legal_right:
  assumes "square n b" and "0 < n"
  shows "check_legal n b 1 = Inr (\<exists>r<n. has_gap (rev (b ! r)))"
proof -
  have "check_legal_loop (occ_col n b 0) (map (occ_col n b) [1..<n]) \<longleftrightarrow>
        (\<exists>j<n. \<exists>i<j. \<exists>r<n. b ! r ! i \<noteq> 0 \<and> \<not> b ! r ! j \<noteq> 0)"
    using loop_cells [OF assms(2), of "\<lambda>i r. b ! r ! i \<noteq> 0"] by (simp add: occ_col_fun)
  also have "\<dots> \<longleftrightarrow> (\<exists>r<n. \<exists>j<n. \<exists>i<j. b ! r ! i \<noteq> 0 \<and> b ! r ! j = 0)"
    by auto
  also have "\<dots> \<longleftrightarrow> (\<exists>r<n. has_gap (rev (b ! r)))"
    using assms(1) by (simp add: has_gap_rev_iff square_def cong: conj_cong)
  finally show ?thesis using assms(2) by (simp add: check_legal_def)
qed

lemma check_legal_left:
  assumes "square n b" and "0 < n"
  shows "check_legal n b 0 = Inr (\<exists>r<n. has_gap (b ! r))"
proof -
  have m: "map (occ_col n b) (rev [0..<n - 1]) =
           map (\<lambda>i. map (\<lambda>r. b ! r ! (n - 1 - i) \<noteq> 0) [0..<n]) [1..<n]"
    unfolding rev_upt_shift occ_col_fun by (simp add: comp_def)
  have "check_legal_loop (occ_col n b (n - 1)) (map (occ_col n b) (rev [0..<n - 1])) \<longleftrightarrow>
        (\<exists>j<n. \<exists>i<j. \<exists>r<n. b ! r ! (n - 1 - i) \<noteq> 0 \<and> \<not> b ! r ! (n - 1 - j) \<noteq> 0)"
    unfolding m using loop_cells [OF assms(2), of "\<lambda>i r. b ! r ! (n - 1 - i) \<noteq> 0"]
    by (simp add: occ_col_fun)
  also have "\<dots> \<longleftrightarrow> (\<exists>r<n. \<exists>j<n. \<exists>i<j. b ! r ! (n - 1 - i) \<noteq> 0 \<and> b ! r ! (n - 1 - j) = 0)"
    by auto
  also have "\<dots> \<longleftrightarrow> (\<exists>r<n. has_gap (rev (rev (b ! r))))"
  proof -
    have "(\<exists>j<n. \<exists>i<j. b ! r ! (n - 1 - i) \<noteq> 0 \<and> b ! r ! (n - 1 - j) = 0) \<longleftrightarrow>
          has_gap (rev (rev (b ! r)))" if "r < n" for r
    proof -
      have l: "length (b ! r) = n" using assms(1) that by (simp add: square_def)
      show ?thesis unfolding has_gap_rev_iff [of "rev (b ! r)"]
        by (simp add: l rev_nth cong: conj_cong)
    qed
    then show ?thesis by (simp cong: conj_cong)
  qed
  finally show ?thesis using assms(2) by (simp add: check_legal_def)
qed

lemma occ_row_tr: "i < n \<Longrightarrow> occ_row n b i = occ_col n (tr n b) i"
  by (simp add: occ_row_def occ_col_def tr_cell)

lemma check_legal_tr:
  assumes "0 < n"
  shows "check_legal n b 2 = check_legal n (tr n b) 0"
    and "check_legal n b 3 = check_legal n (tr n b) 1"
proof -
  have a: "map (occ_row n b) (rev [0..<n - 1]) = map (occ_col n (tr n b)) (rev [0..<n - 1])"
    by (intro map_cong refl occ_row_tr) auto
  have b: "map (occ_row n b) [1..<n] = map (occ_col n (tr n b)) [1..<n]"
    by (intro map_cong refl occ_row_tr) auto
  show "check_legal n b 2 = check_legal n (tr n b) 0"
    unfolding check_legal_def a using assms by (simp add: occ_row_tr)
  show "check_legal n b 3 = check_legal n (tr n b) 1"
    unfolding check_legal_def b using assms by (simp add: occ_row_tr)
qed

lemma check_if_same_rows:
  assumes "square n b"
  shows "check_if_same n b 0 \<longleftrightarrow> (\<exists>r<n. raw_adj (b ! r))"
proof -
  have "raw_adj (b ! r) \<longleftrightarrow> (\<exists>c<n - 1. b ! r ! c \<noteq> 0 \<and> b ! r ! c = b ! r ! Suc c)"
    if "r < n" for r
    using assms that by (simp add: raw_adj_iff square_def)
  then show ?thesis
    by (simp add: check_if_same_def list_ex_iff Bex_def cong: conj_cong)
qed

lemma check_if_same_tr:
  "check_if_same n b 1 = check_if_same n (tr n b) 0"
proof -
  have "(\<exists>c<n. \<exists>r<n - 1. b ! r ! c \<noteq> 0 \<and> b ! r ! c = b ! Suc r ! c) \<longleftrightarrow>
        (\<exists>c<n. \<exists>r<n - 1. tr n b ! c ! r \<noteq> 0 \<and> tr n b ! c ! r = tr n b ! c ! Suc r)"
    by (simp add: tr_cell cong: conj_cong)
  then show ?thesis
    by (simp add: check_if_same_def list_ex_iff Bex_def)
qed

subsection \<open>Legal means that the move changes the board\<close>

lemma length_four: "length lm = 4 \<Longrightarrow> \<exists>a b c d. lm = [a, b, c, d]"
  by (cases lm; cases "tl lm"; cases "tl (tl lm)"; cases "tl (tl (tl lm))") auto

lemma update_legal_moves_char:
  assumes "0 < n" and "length lm = 4"
  shows "update_legal_moves n b lm =
         Inr [legal_entry n b 0, legal_entry n b 1, legal_entry n b 2, legal_entry n b 3]"
proof -
  obtain x0 x1 x2 x3 where lm: "lm = [x0, x1, x2, x3]"
    using length_four [OF assms(2)] by blast
  obtain k0 where k0: "check_legal n b 0 = Inr k0" using check_legal_Inr [OF assms(1)] by blast
  obtain k1 where k1: "check_legal n b 1 = Inr k1" using check_legal_Inr [OF assms(1)] by blast
  obtain k2 where k2: "check_legal n b 2 = Inr k2" using check_legal_Inr [OF assms(1)] by blast
  obtain k3 where k3: "check_legal n b 3 = Inr k3" using check_legal_Inr [OF assms(1)] by blast
  have k1': "check_legal n b (Suc 0) = Inr k1" using k1 by simp
  have d: "(2::nat) div 2 = 1" "(3::nat) div 2 = 1" by simp_all
  show ?thesis
    by (simp add: update_legal_moves_def legal_entry_def lm k0 k1 k1' k2 k3 d)
qed

lemma boards_differ_iff:
  assumes "square n b" and "square n b'"
  shows "b' \<noteq> b \<longleftrightarrow> (\<exists>r<n. \<exists>c<n. b' ! r ! c \<noteq> b ! r ! c)"
proof
  assume "b' \<noteq> b"
  then obtain r where r: "r < n" "b' ! r \<noteq> b ! r"
    using assms by (metis nth_equalityI square_def)
  have "length (b' ! r) = n" "length (b ! r) = n" using assms r(1) by (simp_all add: square_def)
  then obtain c where "c < n" "b' ! r ! c \<noteq> b ! r ! c"
    using r(2) by (metis nth_equalityI)
  with r(1) show "\<exists>r<n. \<exists>c<n. b' ! r ! c \<noteq> b ! r ! c" by blast
next
  assume "\<exists>r<n. \<exists>c<n. b' ! r ! c \<noteq> b ! r ! c"
  then show "b' \<noteq> b" by auto
qed

lemma map_differs_iff: "map f xs \<noteq> xs \<longleftrightarrow> (\<exists>k<length xs. f (xs ! k) \<noteq> xs ! k)"
proof -
  have "map f xs = xs \<longleftrightarrow> (\<forall>k<length xs. f (xs ! k) = xs ! k)"
    by (auto simp: list_eq_iff_nth_eq)
  then show ?thesis by auto
qed

lemma rows_legal:
  assumes "square n b" and "0 < n" and "\<forall>row \<in> set b. \<forall>x \<in> set row. x < 256"
    and "D = 0 \<or> D = 1"
  shows "legal_entry n b D = 1 \<longleftrightarrow>
         map (\<lambda>l. map to_uint8 (moved_line (int D) l)) b \<noteq> b"
proof -
  have len: "length b = n" using assms(1) by (simp add: square_def)
  have slide: "check_legal n b D = Inr (\<exists>r<n. has_gap (scan_order (int D) (b ! r)))"
    using assms(4) check_legal_left [OF assms(1,2)] check_legal_right [OF assms(1,2)]
    by (auto simp: scan_order_def)
  have "legal_entry n b D = 1 \<longleftrightarrow>
        (\<exists>r<n. has_gap (scan_order (int D) (b ! r)) \<or> raw_adj (b ! r))"
    using assms(4) slide check_if_same_rows [OF assms(1)] by (auto simp: legal_entry_def)
  also have "\<dots> \<longleftrightarrow> (\<exists>r<n. map to_uint8 (moved_line (int D) (b ! r)) \<noteq> b ! r)"
  proof -
    have "has_gap (scan_order (int D) (b ! r)) \<or> raw_adj (b ! r) \<longleftrightarrow>
          map to_uint8 (moved_line (int D) (b ! r)) \<noteq> b ! r" if "r < n" for r
    proof -
      have "b ! r \<in> set b" using that len by simp
      then have "\<forall>x \<in> set (b ! r). x < 256" using assms(3) by blast
      then show ?thesis using line_changed [of "b ! r" "int D"] assms(4) by auto
    qed
    then show ?thesis by (simp cong: conj_cong)
  qed
  finally show ?thesis by (simp add: map_differs_iff len)
qed

lemma tr_small:
  assumes "square n b" and "\<forall>row \<in> set b. \<forall>x \<in> set row. x < g"
  shows "\<forall>row \<in> set (tr n b). \<forall>x \<in> set row. x < g"
  using tr_cells [OF assms(1)] assms(2) by blast

lemma cols_legal:
  assumes "square n b" and "0 < n" and "\<forall>row \<in> set b. \<forall>x \<in> set row. x < 256"
    and "D = 2 \<or> D = 3"
  shows "legal_entry n b D = 1 \<longleftrightarrow>
         tr n (map (\<lambda>l. map to_uint8 (moved_line (int D - 2) l)) (tr n b)) \<noteq> b"
proof -
  let ?m = "map (\<lambda>l. map to_uint8 (moved_line (int D - 2) l)) (tr n b)"
  have e: "legal_entry n b D = legal_entry n (tr n b) (D - 2)"
    using assms(4) check_legal_tr [OF assms(2), of b] check_if_same_tr [of n b]
    by (auto simp: legal_entry_def)
  have i: "int (D - 2) = int D - 2" using assms(4) by auto
  have "legal_entry n (tr n b) (D - 2) = 1 \<longleftrightarrow> ?m \<noteq> tr n b"
    using rows_legal [OF tr_square assms(2) tr_small [OF assms(1,3)], of "D - 2"] assms(4)
    unfolding i by auto
  also have "\<dots> \<longleftrightarrow> tr n ?m \<noteq> b"
  proof -
    have "square n ?m" by (rule map_moved_square [OF tr_square])
    then have "tr n (tr n ?m) = ?m" by (rule tr_tr)
    then show ?thesis using tr_tr [OF assms(1)] by metis
  qed
  finally show ?thesis using e by simp
qed

subsection \<open>Legality soundness\<close>

lemma wf_board_small: "wf_board n b \<Longrightarrow> \<forall>row \<in> set b. \<forall>x \<in> set row. x < 256"
  by (auto simp: wf_board_def list_all_iff)

lemma apply_move_square:
  assumes "square n b" and "D < 4" and "apply_move n b (int D) sps = Inr (b', ev)"
  shows "square n b'"
proof (cases "D < 2")
  case True
  then have "int D = 0 \<or> int D = 1" by auto
  from apply_move_rows [OF assms(1) this, of sps] assms(3)
  show ?thesis using map_moved_square [OF assms(1)] by auto
next
  case False
  then have "int D = 2 \<or> int D = 3" using assms(2) by auto
  from apply_move_cols [OF assms(1) this, of sps] assms(3)
  show ?thesis using tr_square by auto
qed

text \<open>
  Claim C1. On a board of positive size, the vector \<open>_update_legal_moves\<close> computes
  marks a direction legal exactly when the move in that direction (\<open>_combiner\<close> on every
  row or column, written back into the board) changes at least one cell.
\<close>

theorem legality_sound:
  assumes "wf_board n b" and "0 < n" and "length lm = 4" and "D < 4"
  shows "\<exists>lm' b' ev. update_legal_moves n b lm = Inr lm' \<and>
           apply_move n b (int D) sps = Inr (b', ev) \<and>
           (lm' ! D = 1 \<longleftrightarrow> (\<exists>r<n. \<exists>c<n. b' ! r ! c \<noteq> b ! r ! c))"
proof -
  have sq: "square n b" by (rule wf_board_square [OF assms(1)])
  have small: "\<forall>row \<in> set b. \<forall>x \<in> set row. x < 256" by (rule wf_board_small [OF assms(1)])
  let ?lm = "[legal_entry n b 0, legal_entry n b 1, legal_entry n b 2, legal_entry n b 3]"
  have lm: "update_legal_moves n b lm = Inr ?lm"
    by (rule update_legal_moves_char [OF assms(2,3)])
  have D: "D = 0 \<or> D = 1 \<or> D = 2 \<or> D = 3" using assms(4) by auto
  then have entry: "?lm ! D = legal_entry n b D" by auto
  show ?thesis
  proof (cases "D = 0 \<or> D = 1")
    case True
    then have a: "int D = 0 \<or> int D = 1" by auto
    let ?b = "map (\<lambda>row. map to_uint8 (moved_line (int D) row)) b"
    have mv: "apply_move n b (int D) sps = Inr (?b, sps @ concat (map (line_events (int D)) b))"
      by (rule apply_move_rows [OF sq a])
    have "legal_entry n b D = 1 \<longleftrightarrow> ?b \<noteq> b" by (rule rows_legal [OF sq assms(2) small True])
    also have "\<dots> \<longleftrightarrow> (\<exists>r<n. \<exists>c<n. ?b ! r ! c \<noteq> b ! r ! c)"
      by (rule boards_differ_iff [OF sq map_moved_square [OF sq]])
    finally show ?thesis using lm mv entry by auto
  next
    case False
    with D have d: "D = 2 \<or> D = 3" by auto
    then have a: "int D = 2 \<or> int D = 3" by auto
    let ?b = "tr n (map (\<lambda>l. map to_uint8 (moved_line (int D - 2) l)) (tr n b))"
    have mv: "apply_move n b (int D) sps =
              Inr (?b, sps @ concat (map (line_events (int D - 2)) (tr n b)))"
      by (rule apply_move_cols [OF sq a])
    have "legal_entry n b D = 1 \<longleftrightarrow> ?b \<noteq> b" by (rule cols_legal [OF sq assms(2) small d])
    also have "\<dots> \<longleftrightarrow> (\<exists>r<n. \<exists>c<n. ?b ! r ! c \<noteq> b ! r ! c)"
      by (rule boards_differ_iff [OF sq tr_square])
    finally show ?thesis using lm mv entry by auto
  qed
qed

theorem legality_sound_witness:
  "wf_board 2 small_board \<and>
   (\<exists>lm' b' ev. update_legal_moves 2 small_board [1, 1, 1, 1] = Inr lm' \<and>
      apply_move 2 small_board (int 0) ([] :: 32 word list) = Inr (b', ev) \<and>
      (lm' ! 0 = 1 \<longleftrightarrow> (\<exists>r<2. \<exists>c<2. b' ! r ! c \<noteq> small_board ! r ! c)))"
proof -
  have h1: "wf_board 2 small_board" by (simp add: wf_board_def small_board_def)
  have h2: "(0::nat) < 2" and h3: "length [1, 1, 1, 1 :: nat] = 4" and h4: "(0::nat) < 4"
    by simp_all
  from h1 legality_sound [OF h1 h2 h3 h4, of "[] :: 32 word list"] show ?thesis
    by (rule conjI)
qed

subsection \<open>The slide check as a scan\<close>

lemma amended_scan_loop: "amended_scan msk lines = check_legal_loop msk lines"
proof (induction lines arbitrary: msk)
  case Nil
  show ?case by simp
next
  case (Cons line lines)
  have "(\<lambda>(m, l). m \<and> \<not> l) = (\<lambda>(c::bool, l). (c \<noteq> l) \<and> c)" by auto
  then show ?case using Cons by simp
qed

lemma rev_upt_Cons: "0 < n \<Longrightarrow> rev [0..<n] = (n - 1) # rev [0..<n - 1]"
  by (cases n) simp_all

text \<open>
  Claim C2, amended. For every board of positive size and every direction, the scan that
  starts with the line at the edge opposite to the compaction edge, runs towards the
  compaction edge and reports a line with an empty position where the running mask has a
  one, returns the boolean of \<open>_check_legal\<close>.
\<close>

theorem slide_check_refines:
  assumes "0 < n" and "way < 4"
  shows "check_legal n b way = Inr (amended_slide_check n b way)"
proof -
  have w: "way = 0 \<or> way = 1 \<or> way = 2 \<or> way = 3" using assms(2) by auto
  have near: "(if compaction_edge n way = 0 then rev [0..<n] else [0..<n]) =
              (n - 1) # rev [0..<n - 1]" if "way = 0 \<or> way = 2"
    using that rev_upt_Cons [OF assms(1)] by (auto simp: compaction_edge_def)
  have far: "(if compaction_edge n way = 0 then rev [0..<n] else [0..<n]) = 0 # [1..<n]"
    if "way = 1 \<or> way = 3"
  proof (cases "n = 1")
    case True
    then show ?thesis by simp
  next
    case False
    then have "n - 1 \<noteq> 0" using assms(1) by simp
    then show ?thesis using that upt_from_1 [OF assms(1)] by (auto simp: compaction_edge_def)
  qed
  have cols: "line_occ n b way = occ_col n b" if "way < 2"
    using that by (intro ext) (simp add: line_occ_def)
  have rows: "line_occ n b way = occ_row n b" if "\<not> way < 2"
    using that by (intro ext) (simp add: line_occ_def)
  from w show ?thesis
  proof (elim disjE)
    assume "way = 0"
    then show ?thesis using assms(1) near cols
      by (simp add: check_legal_def amended_slide_check_def amended_scan_loop)
  next
    assume "way = 1"
    then show ?thesis using assms(1) far cols
      by (simp add: check_legal_def amended_slide_check_def amended_scan_loop)
  next
    assume "way = 2"
    then show ?thesis using assms(1) near rows
      by (simp add: check_legal_def amended_slide_check_def amended_scan_loop)
  next
    assume "way = 3"
    then show ?thesis using assms(1) far rows
      by (simp add: check_legal_def amended_slide_check_def amended_scan_loop)
  qed
qed

theorem slide_check_refines_witness:
  "check_legal 4 gap_board 0 = Inr (amended_slide_check 4 gap_board 0) \<and>
   amended_slide_check 4 gap_board 0"
proof -
  have h: "(0::nat) < 4" by simp_all
  have u: "[0..<4] = [0, 1, 2, 3]" by (simp add: upt_rec)
  have "amended_slide_check 4 gap_board 0"
    by (simp add: amended_slide_check_def compaction_edge_def line_occ_def occ_col_def u
          gap_board_def)
  with slide_check_refines [OF h h, of gap_board] show ?thesis by simp
qed

text \<open>
  The claim as stated fails: in the row \<open>[1, 0, 2, 0]\<close> the tile 2 can slide to the
  left and \<open>_check_legal(0)\<close> is True, but the scan from column 0 outward finds every
  occupied position already in its mask.
\<close>

theorem slide_check_counterexample:
  "check_legal 4 gap_board 0 = Inr True \<and> spec_slide_check 4 gap_board 0 = False"
proof -
  have u: "[0..<4] = [0, 1, 2, 3]" "[0..<3] = [0, 1, 2]" by (simp_all add: upt_rec)
  have t: "(4::nat) - 1 = 3" by simp
  show ?thesis
    by (simp add: check_legal_def spec_slide_check_def compaction_edge_def line_occ_def
          occ_col_def u t gap_board_def)
qed

subsection \<open>The spawn\<close>

lemma zero_pos_set: "set (zero_pos n b) = {(r, c). r < n \<and> c < n \<and> b ! r ! c = 0}"
  by (fastforce simp: zero_pos_def)

lemma zero_pos_empty: "zero_pos n b = [] \<longleftrightarrow> \<not> has_empty n b"
proof -
  have "zero_pos n b = [] \<longleftrightarrow> set (zero_pos n b) = {}" by simp
  also have "\<dots> \<longleftrightarrow> \<not> has_empty n b" unfolding zero_pos_set has_empty_def by auto
  finally show ?thesis .
qed

lemma spawn_block_fails: "spawn_block n b d = Inl e \<longleftrightarrow> e = ValueError \<and> \<not> has_empty n b"
  by (cases d) (auto simp: spawn_block_def Let_def zero_pos_empty [symmetric] split: prod.splits)

lemma spawn_block_spawned:
  assumes "spawn_block n b d = Inr b'"
  shows "spawned n b b'"
proof -
  obtain raw lt where d: "d = (raw, lt)" by (cases d) auto
  let ?zp = "zero_pos n b"
  from assms d have ne: "?zp \<noteq> []" by (auto simp: spawn_block_def Let_def)
  obtain r c where rc: "?zp ! (raw mod length ?zp) = (r, c)" by (cases "?zp ! (raw mod length ?zp)") auto
  have "(r, c) \<in> set ?zp" using ne rc by (metis length_greater_0_conv mod_less_divisor nth_mem)
  then have cell: "r < n" "c < n" "b ! r ! c = 0" by (auto simp: zero_pos_set)
  from assms d ne rc have "b' = b[r := (b ! r)[c := random_1_2 lt]]"
    by (simp add: spawn_block_def Let_def)
  then show ?thesis using cell by (cases lt) (auto simp: spawned_def random_1_2_def)
qed

lemma spawn_block_succeeds:
  assumes "has_empty n b"
  shows "\<exists>b'. spawn_block n b d = Inr b'"
proof (cases "spawn_block n b d")
  case (Inl e)
  then show ?thesis using assms spawn_block_fails by blast
next
  case (Inr b')
  then show ?thesis by blast
qed


lemma spawned_square:
  assumes "square n b" and "spawned n b b'"
  shows "square n b'"
  using assms by (auto simp: spawned_def square_def dest!: set_update_subset_insert [THEN subsetD])

subsection \<open>A move that changes the board leaves an empty cell\<close>

lemma scan_order_twice: "way = 0 \<or> way = 1 \<Longrightarrow> scan_order way (scan_order way xs) = xs"
  by (auto simp: scan_order_def)

lemma tiles_full: "length (tiles xs) = length xs \<Longrightarrow> tiles xs = xs"
proof -
  assume l: "length (tiles xs) = length xs"
  have "\<forall>x \<in> set xs. x \<noteq> 0"
  proof (rule ccontr)
    assume "\<not> (\<forall>x \<in> set xs. x \<noteq> 0)"
    then obtain x where "x \<in> set xs" "\<not> x \<noteq> 0" by blast
    then have "length (filter (\<lambda>x. x \<noteq> 0) xs) < length xs" by (rule length_filter_less)
    with l show False by (simp add: tiles_def)
  qed
  then show ?thesis by (simp add: tiles_def)
qed

lemma line_changed_room:
  assumes "\<forall>x \<in> set line. x < 256" and "way = 0 \<or> way = 1"
    and "map to_uint8 (moved_line way line) \<noteq> line"
  shows "length (placed (scan_order way line)) < length line"
proof (rule ccontr)
  let ?o = "scan_order way line"
  assume "\<not> length (placed ?o) < length line"
  then have full: "length (placed ?o) = length ?o"
    using placed_length [of ?o] by (simp add: scan_order_length)
  have "length (tiles ?o) \<le> length ?o" by (rule tiles_length)
  with full placed_facts(3) [of ?o] have "length (merged ?o) = 0" and t: "length (tiles ?o) = length ?o"
    by linarith+
  then have m: "merged ?o = []" by simp
  have "placed ?o = rev ?o" using placed_facts(4) [OF m] tiles_full [OF t] by simp
  then have "moved_line way line = line"
    using full by (simp add: moved_line_def scan_order_length scan_order_twice [OF assms(2)])
  then have "map to_uint8 (moved_line way line) = line"
    using map_to_uint8_id [OF assms(1)] by simp
  with assms(3) show False by simp
qed

lemma line_changed_zero:
  assumes "\<forall>x \<in> set line. x < 256" and "way = 0 \<or> way = 1"
    and "map to_uint8 (moved_line way line) \<noteq> line"
  shows "0 \<in> set (map to_uint8 (moved_line way line))"
proof -
  have "0 \<in> set (replicate (length line - length (placed (scan_order way line))) (0::nat))"
    using line_changed_room [OF assms] by simp
  then have "0 \<in> set (moved_line way line)"
    by (simp add: moved_line_def scan_order_set)
  then have "to_uint8 0 \<in> to_uint8 ` set (moved_line way line)" by (rule imageI)
  then show ?thesis by (simp add: to_uint8_def)
qed

lemma moved_rows_empty:
  assumes "square n b" and "\<forall>row \<in> set b. \<forall>x \<in> set row. x < 256" and "way = 0 \<or> way = 1"
    and "map (\<lambda>l. map to_uint8 (moved_line way l)) b \<noteq> b"
  shows "\<exists>r<n. \<exists>c<n. map (\<lambda>l. map to_uint8 (moved_line way l)) b ! r ! c = 0"
proof -
  have len: "length b = n" using assms(1) by (simp add: square_def)
  from assms(4) obtain r where r: "r < n" "map to_uint8 (moved_line way (b ! r)) \<noteq> b ! r"
    unfolding map_differs_iff using len by auto
  have row: "b ! r \<in> set b" using r(1) len by simp
  then have "\<forall>x \<in> set (b ! r). x < 256" using assms(2) by blast
  from line_changed_zero [OF this assms(3) r(2)]
  obtain c where c: "c < length (map to_uint8 (moved_line way (b ! r)))"
    "map to_uint8 (moved_line way (b ! r)) ! c = 0"
    by (metis in_set_conv_nth)
  have "length (b ! r) = n" using assms(1) row by (simp add: square_def)
  then have "c < n" using c(1) by (simp add: moved_line_length)
  moreover have "map (\<lambda>l. map to_uint8 (moved_line way l)) b ! r ! c = 0"
    using r(1) c(2) len by simp
  ultimately show ?thesis using r(1) by blast
qed

lemma legal_move_leaves_empty:
  assumes "wf_board n b" and "0 < n" and "D < 4" and "legal_entry n b D = 1"
    and "apply_move n b (int D) sps = Inr (b', ev)"
  shows "has_empty n b'"
proof -
  have sq: "square n b" by (rule wf_board_square [OF assms(1)])
  have small: "\<forall>row \<in> set b. \<forall>x \<in> set row. x < 256" by (rule wf_board_small [OF assms(1)])
  show ?thesis
  proof (cases "D = 0 \<or> D = 1")
    case True
    then have a: "int D = 0 \<or> int D = 1" by auto
    let ?b = "map (\<lambda>row. map to_uint8 (moved_line (int D) row)) b"
    have b': "b' = ?b" using apply_move_rows [OF sq a, of sps] assms(5) by simp
    have "?b \<noteq> b" using rows_legal [OF sq assms(2) small True] assms(4) by simp
    from moved_rows_empty [OF sq small a this] show ?thesis by (simp add: has_empty_def b')
  next
    case False
    then have d: "D = 2 \<or> D = 3" using assms(3) by auto
    then have a: "int D = 2 \<or> int D = 3" and a': "int D - 2 = 0 \<or> int D - 2 = 1" by auto
    let ?m = "map (\<lambda>l. map to_uint8 (moved_line (int D - 2) l)) (tr n b)"
    have b': "b' = tr n ?m" using apply_move_cols [OF sq a, of sps] assms(5) by simp
    have "tr n ?m \<noteq> b" using cols_legal [OF sq assms(2) small d] assms(4) by simp
    then have "?m \<noteq> tr n b" using tr_tr [OF sq] by auto
    from moved_rows_empty [OF tr_square tr_small [OF sq small] a' this]
    obtain c r where "c < n" "r < n" "?m ! c ! r = 0" by blast
    then have "tr n ?m ! r ! c = 0" by (simp add: tr_cell)
    then show ?thesis using \<open>c < n\<close> \<open>r < n\<close> by (auto simp: has_empty_def b')
  qed
qed

subsection \<open>The postcondition of a legal step\<close>

lemma consistent_entries:
  assumes "consistent s" and "D < 4"
  shows "legal_moves s ! D = legal_entry (size_n s) (board s) D"
proof -
  from assms(1) have "0 < size_n s" "length (legal_moves s) = 4"
    "update_legal_moves (size_n s) (board s) (legal_moves s) = Inr (legal_moves s)"
    by (simp_all add: consistent_def)
  with update_legal_moves_char [of "size_n s" "legal_moves s" "board s"]
  have "legal_moves s = [legal_entry (size_n s) (board s) 0, legal_entry (size_n s) (board s) 1,
          legal_entry (size_n s) (board s) 2, legal_entry (size_n s) (board s) 3]"
    by simp
  moreover have "D = 0 \<or> D = 1 \<or> D = 2 \<or> D = 3" using assms(2) by auto
  ultimately show ?thesis by (metis nth_Cons_0 nth_Cons_Suc numeral_2_eq_2 numeral_3_eq_3 One_nat_def)
qed

lemma py_index_direction:
  assumes "length lm = 4" and "action \<in> {0, 1, 2, 3}"
  shows "py_index lm action = Inr (lm ! nat action)"
  using assms by (auto simp: py_index_def)

lemma apply_move_total:
  assumes "square n b" and "action \<in> {0, 1, 2, 3}"
  shows "\<exists>b' ev. apply_move n b action sps = Inr (b', ev)"
proof (cases "action = 0 \<or> action = 1")
  case True
  then show ?thesis using apply_move_rows [OF assms(1), of action sps] by simp
next
  case False
  then have "action = 2 \<or> action = 3" using assms(2) by auto
  then show ?thesis using apply_move_cols [OF assms(1), of action sps] by simp
qed




subsection \<open>Spawn safety\<close>

lemma zeros_square: "square n (zeros n)"
  by (simp add: square_def zeros_def)

lemma zeros_cell: "r < n \<Longrightarrow> c < n \<Longrightarrow> zeros n ! r ! c = 0"
  by (simp add: zeros_def)

lemma zeros_has_empty: "0 < n \<Longrightarrow> has_empty n (zeros n)"
  unfolding has_empty_def using zeros_cell [of 0 n 0] by blast

lemma spawned_cell:
  assumes "square n b" and "spawned n b b'"
  obtains r c v where "r < n" "c < n" "b ! r ! c = 0" "v = 1 \<or> v = 2"
    "b' = b[r := (b ! r)[c := v]]"
    "\<And>r' c'. r' < n \<Longrightarrow> c' < n \<Longrightarrow> b' ! r' ! c' = (if r' = r \<and> c' = c then v else b ! r' ! c')"
proof -
  from assms(2) obtain r c v where rc: "r < n" "c < n" "b ! r ! c = 0" "v = 1 \<or> v = (2::nat)"
    "b' = b[r := (b ! r)[c := v]]"
    unfolding spawned_def by blast
  have "b' ! r' ! c' = (if r' = r \<and> c' = c then v else b ! r' ! c')"
    if "r' < n" "c' < n" for r' c'
    using that rc assms(1) by (auto simp: square_def nth_list_update)
  with rc show ?thesis using that by blast
qed

lemma spawned_leaves_empty:
  assumes "square n b" and "spawned n b b'" and "2 \<le> n" and "\<forall>r<n. \<forall>c<n. b ! r ! c = 0"
  shows "has_empty n b'"
proof -
  from spawned_cell [OF assms(1,2)] obtain r c v where rc: "r < n" "c < n"
    and cells: "\<And>r' c'. r' < n \<Longrightarrow> c' < n \<Longrightarrow>
                  b' ! r' ! c' = (if r' = r \<and> c' = c then v else b ! r' ! c')"
    by metis
  let ?c = "if c = 0 then 1 else (0::nat)"
  have c': "?c < n" "?c \<noteq> c" using assms(3) by auto
  then have "b' ! r ! ?c = 0" using cells [OF rc(1) c'(1)] assms(4) rc(1) by auto
  then show ?thesis unfolding has_empty_def using rc(1) c'(1) by blast
qed

lemma reset_succeeds:
  assumes "2 \<le> size_n s"
  shows "\<exists>b1 b2 lm. spawn_block (size_n s) (zeros (size_n s)) d1 = Inr b1 \<and>
           spawned (size_n s) (zeros (size_n s)) b1 \<and>
           spawn_block (size_n s) b1 d2 = Inr b2 \<and> spawned (size_n s) b1 b2 \<and>
           update_legal_moves (size_n s) b2 [1, 1, 1, 1] = Inr lm \<and>
           reset s d1 d2 =
             Inr (s\<lparr>board := b2, legal_moves := lm, is_legal := True, score := 0,
                    score_per_step := [], n_step := 0, n_episode := n_episode s + 1\<rparr>)"
proof -
  let ?n = "size_n s"
  have n: "0 < ?n" using assms by simp
  obtain b1 where b1: "spawn_block ?n (zeros ?n) d1 = Inr b1"
    using spawn_block_succeeds [OF zeros_has_empty [OF n]] by blast
  have s1: "spawned ?n (zeros ?n) b1" by (rule spawn_block_spawned [OF b1])
  have "has_empty ?n b1"
    using spawned_leaves_empty [OF zeros_square s1 assms] zeros_cell by simp
  then obtain b2 where b2: "spawn_block ?n b1 d2 = Inr b2"
    using spawn_block_succeeds by blast
  have s2: "spawned ?n b1 b2" by (rule spawn_block_spawned [OF b2])
  obtain lm where lm: "update_legal_moves ?n b2 [1, 1, 1, 1] = Inr lm"
    using update_legal_moves_Inr [OF n] by blast
  have "reset s d1 d2 =
             Inr (s\<lparr>board := b2, legal_moves := lm, is_legal := True, score := 0,
                    score_per_step := [], n_step := 0, n_episode := n_episode s + 1\<rparr>)"
    using b1 b2 lm by (simp add: reset_def zeros_def)
  with b1 s1 b2 s2 lm show ?thesis by blast
qed

lemma legal_move_spawns:
  assumes "consistent s" and "action \<in> {0, 1, 2, 3}"
    and "py_index (legal_moves s) action = Inr 1"
  shows "\<exists>b1 ev. apply_move (size_n s) (board s) action sps = Inr (b1, ev) \<and>
           square (size_n s) b1 \<and>
           (\<exists>b2. spawn_block (size_n s) b1 d = Inr b2 \<and> spawned (size_n s) b1 b2)"
proof -
  let ?n = "size_n s"
  from assms(1) have n: "0 < ?n" and wf: "wf_board ?n (board s)" and l4: "length (legal_moves s) = 4"
    by (simp_all add: consistent_def)
  have sq: "square ?n (board s)" by (rule wf_board_square [OF wf])
  obtain b1 and ev :: "'b word list" where mv: "apply_move ?n (board s) action sps = Inr (b1, ev)"
    using apply_move_total [OF sq assms(2)] by blast
  have D: "nat action < 4" "int (nat action) = action" using assms(2) by auto
  have sq1: "square ?n b1" using apply_move_square [OF sq D(1), of sps b1 ev] mv D(2) by simp
  have "legal_moves s ! nat action = 1"
    using py_index_direction [OF l4 assms(2)] assms(3) by simp
  then have legal: "legal_entry ?n (board s) (nat action) = 1"
    using consistent_entries [OF assms(1) D(1)] by simp
  have "has_empty ?n b1"
    using legal_move_leaves_empty [OF wf n D(1) legal, of sps b1 ev] mv D(2) by simp
  then obtain b2 where sp: "spawn_block ?n b1 d = Inr b2"
    using spawn_block_succeeds by blast
  with mv sq1 spawn_block_spawned [OF sp] show ?thesis by blast
qed

text \<open>
  Claim C9, amended. For an engine of size at least 2, both spawns of \<open>reset\<close> find an
  empty cell and \<open>reset\<close> returns; in a consistent state, after the move of a direction
  marked legal, the spawn of \<open>step\<close> finds an empty cell; and a spawn that finds one
  writes the exponent 1 or 2 into a cell that was empty and leaves the other cells as they
  were, while a spawn that finds none raises ValueError and nothing else.
\<close>

theorem spawn_safety:
  "(2 \<le> size_n eng \<longrightarrow>
      (\<exists>b1 b2 s'. spawn_block (size_n eng) (zeros (size_n eng)) d1 = Inr b1 \<and>
         spawned (size_n eng) (zeros (size_n eng)) b1 \<and>
         spawn_block (size_n eng) b1 d2 = Inr b2 \<and> spawned (size_n eng) b1 b2 \<and>
         reset eng d1 d2 = Inr s' \<and> board s' = b2)) \<and>
   (consistent s \<and> action \<in> {0, 1, 2, 3} \<and> py_index (legal_moves s) action = Inr 1 \<longrightarrow>
      (\<exists>b1 ev b2. apply_move (size_n s) (board s) action ([] :: 'w::len word list) = Inr (b1, ev) \<and>
         spawn_block (size_n s) b1 d = Inr b2 \<and> spawned (size_n s) b1 b2)) \<and>
   (spawn_block n b d = Inr b' \<longrightarrow> spawned n b b') \<and>
   (spawn_block n b d = Inl e \<longrightarrow> e = ValueError \<and> \<not> has_empty n b)"
proof (intro conjI impI)
  assume "2 \<le> size_n eng"
  from reset_succeeds [OF this, of d1 d2]
  show "\<exists>b1 b2 s'. spawn_block (size_n eng) (zeros (size_n eng)) d1 = Inr b1 \<and>
         spawned (size_n eng) (zeros (size_n eng)) b1 \<and>
         spawn_block (size_n eng) b1 d2 = Inr b2 \<and> spawned (size_n eng) b1 b2 \<and>
         reset eng d1 d2 = Inr s' \<and> board s' = b2"
    by force
next
  assume "consistent s \<and> action \<in> {0, 1, 2, 3} \<and> py_index (legal_moves s) action = Inr 1"
  then show "\<exists>b1 ev b2. apply_move (size_n s) (board s) action ([] :: 'w word list) = Inr (b1, ev) \<and>
         spawn_block (size_n s) b1 d = Inr b2 \<and> spawned (size_n s) b1 b2"
    using legal_move_spawns [of s action "[] :: 'w word list" d] by blast
next
  assume "spawn_block n b d = Inr b'"
  then show "spawned n b b'" by (rule spawn_block_spawned)
next
  assume "spawn_block n b d = Inl e"
  then show "e = ValueError" "\<not> has_empty n b" using spawn_block_fails by blast+
qed

text \<open>
  The claim as stated fails for an engine of size 1: the first spawn of \<open>reset\<close> fills
  the only cell and the second finds no empty cell.
\<close>

theorem spawn_safety_counterexample:
  "reset tiny_state (0, True) (0, True) = Inl ValueError"
proof -
  have a: "spawn_block 1 [[0]] (0, True) = Inr [[1]]"
    by (simp add: spawn_block_def zero_pos_def random_1_2_def Let_def)
  have b: "spawn_block 1 [[1]] (0, True) = Inl ValueError"
    by (simp add: spawn_block_def zero_pos_def Let_def)
  show ?thesis using a b by (simp add: reset_def tiny_state_def)
qed

lemma mid_state_consistent: "consistent mid_state"
proof -
  have u: "[0..<2] = [0, 1]" "[Suc 0..<2] = [Suc 0]" by (simp_all add: upt_rec)
  have t: "(2::nat) - 1 = 1" by simp
  show ?thesis
    unfolding consistent_def mid_state_def
    by (simp add: wf_board_def update_legal_moves_def check_if_same_def check_legal_def
          occ_col_def occ_row_def u t Let_def)
qed

theorem spawn_safety_witness:
  "2 \<le> size_n mid_state \<and> consistent mid_state \<and>
   py_index (legal_moves mid_state) 0 = Inr 1 \<and>
   spawn_block 2 [[2, 0], [2, 0]] (0, True) = Inr [[2, 1], [2, 0]] \<and>
   (\<exists>b1 b2 s'. spawn_block 2 (zeros 2) (0, True) = Inr b1 \<and> spawned 2 (zeros 2) b1 \<and>
      spawn_block 2 b1 (0, True) = Inr b2 \<and> spawned 2 b1 b2 \<and>
      reset mid_state (0, True) (0, True) = Inr s' \<and> board s' = b2) \<and>
   (\<exists>b1 ev b2. apply_move 2 [[1, 1], [0, 2]] 0 ([] :: 32 word list) = Inr (b1, ev) \<and>
      spawn_block 2 b1 (0, True) = Inr b2 \<and> spawned 2 b1 b2) \<and>
   spawned 2 [[2, 0], [2, 0]] [[2, 1], [2, 0]]"
proof -
  have u: "[0..<2] = [0, 1]" by (simp add: upt_rec)
  have h1: "2 \<le> size_n mid_state" by (simp add: mid_state_def)
  have h2: "consistent mid_state" by (rule mid_state_consistent)
  have h3: "py_index (legal_moves mid_state) 0 = Inr 1"
    by (simp add: mid_state_def py_index_def)
  have h4: "spawn_block 2 [[2, 0], [2, 0]] (0, True) = Inr [[2, 1], [2, 0]]"
    by (simp add: spawn_block_def zero_pos_def u random_1_2_def)
  note inst = spawn_safety [where eng = mid_state and ?d1.0 = "(0, True)" and ?d2.0 = "(0, True)"
      and s = mid_state and action = 0 and d = "(0, True)" and n = 2 and b = "[[2, 0], [2, 0]]"
      and b' = "[[2, 1], [2, 0]]" and ?'w = 32]
  have a: "\<exists>b1 b2 s'. spawn_block 2 (zeros 2) (0, True) = Inr b1 \<and> spawned 2 (zeros 2) b1 \<and>
      spawn_block 2 b1 (0, True) = Inr b2 \<and> spawned 2 b1 b2 \<and>
      reset mid_state (0, True) (0, True) = Inr s' \<and> board s' = b2"
    using inst [THEN conjunct1] h1 by (simp add: mid_state_def)
  have b: "\<exists>b1 ev b2. apply_move 2 [[1, 1], [0, 2]] 0 ([] :: 32 word list) = Inr (b1, ev) \<and>
      spawn_block 2 b1 (0, True) = Inr b2 \<and> spawned 2 b1 b2"
    using inst [THEN conjunct2, THEN conjunct1] h2 h3 by (simp add: mid_state_def)
  have c: "spawned 2 [[2, 0], [2, 0]] [[2, 1], [2, 0]]"
    using inst [THEN conjunct2, THEN conjunct2, THEN conjunct1] h4 by simp
  from h1 h2 h3 h4 a b c show ?thesis by (intro conjI)
qed

subsection \<open>The states of an episode\<close>

lemma cells_below_index:
  assumes "square n b"
  shows "cells_below g b \<longleftrightarrow> (\<forall>r<n. \<forall>c<n. b ! r ! c < g)"
proof
  assume h: "cells_below g b"
  show "\<forall>r<n. \<forall>c<n. b ! r ! c < g"
  proof (intro allI impI)
    fix r c assume "r < n" "c < n"
    then have "b ! r \<in> set b" "b ! r ! c \<in> set (b ! r)" using assms by (simp_all add: square_def)
    with h show "b ! r ! c < g" unfolding cells_below_def by blast
  qed
next
  assume h: "\<forall>r<n. \<forall>c<n. b ! r ! c < g"
  show "cells_below g b" unfolding cells_below_def
  proof (intro ballI)
    fix row x assume "row \<in> set b" "x \<in> set row"
    then obtain r c where "r < length b" "row = b ! r" "c < length row" "x = row ! c"
      by (metis in_set_conv_nth)
    then show "x < g" using h assms \<open>row \<in> set b\<close> by (auto simp: square_def)
  qed
qed

lemma wf_board_iff: "wf_board n b \<longleftrightarrow> square n b \<and> cells_below 256 b"
  by (auto simp: wf_board_def square_def cells_below_def list_all_iff)

lemma cells_below_mono: "cells_below g b \<Longrightarrow> g \<le> h \<Longrightarrow> cells_below h b"
  by (fastforce simp: cells_below_def)

lemma spawned_cells_below:
  assumes "square n b" and "spawned n b b'" and "cells_below g b" and "2 < g"
  shows "cells_below g b'"
proof -
  from spawned_cell [OF assms(1,2)] obtain r c v where v: "v = 1 \<or> v = (2::nat)"
    and cells: "\<And>r' c'. r' < n \<Longrightarrow> c' < n \<Longrightarrow>
                  b' ! r' ! c' = (if r' = r \<and> c' = c then v else b ! r' ! c')"
    by metis
  have "\<forall>r<n. \<forall>c<n. b ! r ! c < g" using assms(1,3) cells_below_index by blast
  then have "\<forall>r<n. \<forall>c<n. b' ! r ! c < g" using cells v assms(4) by auto
  then show ?thesis using cells_below_index [OF spawned_square [OF assms(1,2)]] by blast
qed

lemma moved_rows_cells_below:
  assumes "cells_below g b"
  shows "cells_below (Suc g) (map (\<lambda>l. map to_uint8 (moved_line way l)) b)"
  unfolding cells_below_def
proof (intro ballI)
  fix row x assume "row \<in> set (map (\<lambda>l. map to_uint8 (moved_line way l)) b)" "x \<in> set row"
  then obtain l y where l: "l \<in> set b" "y \<in> set (moved_line way l)" "x = to_uint8 y" by auto
  have "\<forall>z \<in> set l. z < g" using assms l(1) by (simp add: cells_below_def)
  from moved_line_bound [OF this, of way] l(2) have "y \<le> g" by blast
  moreover have "to_uint8 y \<le> y" by (simp add: to_uint8_def)
  ultimately show "x < Suc g" using l(3) by simp
qed

lemma tr_cells_below:
  assumes "square n b" and "cells_below g b"
  shows "cells_below g (tr n b)"
  using tr_small [OF assms(1), of g] assms(2) by (simp add: cells_below_def)

lemma apply_move_cells_below:
  assumes "square n b" and "cells_below g b" and "action \<in> {0, 1, 2, 3}"
    and "apply_move n b action sps = Inr (b', ev)"
  shows "cells_below (Suc g) b'"
proof (cases "action = 0 \<or> action = 1")
  case True
  from apply_move_rows [OF assms(1) True, of sps] assms(4)
  show ?thesis using moved_rows_cells_below [OF assms(2)] by auto
next
  case False
  then have a: "action = 2 \<or> action = 3" using assms(3) by auto
  let ?m = "map (\<lambda>l. map to_uint8 (moved_line (action - 2) l)) (tr n b)"
  have "cells_below (Suc g) ?m"
    by (rule moved_rows_cells_below [OF tr_cells_below [OF assms(1,2)]])
  then have "cells_below (Suc g) (tr n ?m)"
    by (rule tr_cells_below [OF map_moved_square [OF tr_square]])
  then show ?thesis using apply_move_cols [OF assms(1) a, of sps] assms(4) by simp
qed

lemma not_goal_cells_below:
  assumes "cells_below (Suc g) b" and "\<not> is_reach_goal b g"
  shows "cells_below g b"
  unfolding cells_below_def
proof (intro ballI)
  fix row x assume rx: "row \<in> set b" "x \<in> set row"
  then have "x < Suc g" using assms(1) unfolding cells_below_def by blast
  moreover have "x \<noteq> g" using assms(2) rx unfolding is_reach_goal_def list_ex_iff by blast
  ultimately show "x < g" by simp
qed

lemma apply_move_Inr_action:
  assumes "0 < n" and "apply_move n b action sps = Inr x"
  shows "action \<in> {0, 1, 2, 3}"
proof (rule ccontr)
  assume out: "action \<notin> {0, 1, 2, 3}"
  have u: "[0..<n] = 0 # [1..<n]" by (rule upt_from_1 [OF assms(1)])
  show False
  proof (cases "action < 2")
    case True
    with out have "\<not> (action = 0 \<or> action = 1)" by auto
    then have "apply_move n b action sps = Inl AssertionError"
      using True by (simp add: apply_move_def u combiner_def)
    with assms(2) show False by simp
  next
    case False
    with out have "\<not> (action - 2 = 0 \<or> action - 2 = 1)" by auto
    then have "apply_move n b action sps = Inl AssertionError"
      using False by (simp add: apply_move_def u combiner_def)
    with assms(2) show False by simp
  qed
qed

lemma update_fix:
  assumes "0 < n" and "length lm = 4" and "update_legal_moves n b lm = Inr lm'"
  shows "length lm' = 4 \<and> update_legal_moves n b lm' = Inr lm'"
proof -
  have e: "lm' = [legal_entry n b 0, legal_entry n b 1, legal_entry n b 2, legal_entry n b 3]"
    using update_legal_moves_char [OF assms(1,2), of b] assms(3) by simp
  then have l: "length lm' = 4" by simp
  from update_legal_moves_char [OF assms(1) l, of b] e show ?thesis using l by simp
qed

lemma step_cases:
  assumes "step (s :: 'w::len state) a d = Inr (s', r, t)"
  shows "size_n s' = size_n s \<and> board_goal s' = board_goal s \<and>
         update_legal_moves (size_n s) (board s') (legal_moves s) = Inr (legal_moves s') \<and>
         ((\<exists>e. py_index (legal_moves s) a = Inr e \<and> e \<noteq> 1 \<and> board s' = board s \<and> \<not> t) \<or>
          (py_index (legal_moves s) a = Inr 1 \<and>
           (\<exists>b1 ev. apply_move (size_n s) (board s) a ([] :: 'w word list) = Inr (b1, ev) \<and>
              ((is_reach_goal b1 (board_goal s) \<and> board s' = b1 \<and> t) \<or>
               (\<not> is_reach_goal b1 (board_goal s) \<and>
                spawn_block (size_n s) b1 d = Inr (board s'))))))"
  using assms
  by (auto simp: step_def step_changed_def spawn_and_check_def update_best_score_def Let_def
        split: sum.splits if_splits prod.splits)

lemma zeros_cells_below: "0 < g \<Longrightarrow> cells_below g (zeros n)"
  by (auto simp: cells_below_def zeros_def)

lemma spawned_positive: "spawned n b b' \<Longrightarrow> 0 < n"
  by (auto simp: spawned_def)

lemma consistentI:
  assumes "0 < n" and "square n b" and "cells_below 256 b" and "length lm0 = 4"
    and "update_legal_moves n b lm0 = Inr lm"
    and "size_n s = n" and "board s = b" and "legal_moves s = lm"
  shows "consistent s"
  using update_fix [OF assms(1,4,5)] assms(1,2,3,6,7,8)
  by (simp add: consistent_def wf_board_iff)

lemma reset_good:
  assumes "2 < board_goal s" and "board_goal s < 256" and "reset s d1 d2 = Inr s'"
  shows "good s' False"
proof -
  let ?n = "size_n s" and ?g = "board_goal s"
  from assms(3) obtain b1 b2 lm where
    b1: "spawn_block ?n (zeros ?n) d1 = Inr b1" and b2: "spawn_block ?n b1 d2 = Inr b2" and
    lm: "update_legal_moves ?n b2 [1, 1, 1, 1] = Inr lm" and
    s': "s' = s\<lparr>board := b2, legal_moves := lm, is_legal := True, score := 0,
                  score_per_step := [], n_step := 0, n_episode := n_episode s + 1\<rparr>"
    by (auto simp: reset_def zeros_def Let_def split: sum.splits)
  have sp1: "spawned ?n (zeros ?n) b1" and sp2: "spawned ?n b1 b2"
    using spawn_block_spawned [OF b1] spawn_block_spawned [OF b2] by simp_all
  have n: "0 < ?n" by (rule spawned_positive [OF sp1])
  have sq1: "square ?n b1" by (rule spawned_square [OF zeros_square sp1])
  have sq2: "square ?n b2" by (rule spawned_square [OF sq1 sp2])
  have "cells_below ?g (zeros ?n)" using assms(1) by (intro zeros_cells_below) simp
  then have "cells_below ?g b1" using spawned_cells_below [OF zeros_square sp1] assms(1) by blast
  then have c2: "cells_below ?g b2" using spawned_cells_below [OF sq1 sp2] assms(1) by blast
  have c256: "cells_below 256 b2" using cells_below_mono [OF c2] assms(2) by simp
  have cs: "cells_below (Suc ?g) b2" using cells_below_mono [OF c2] by simp
  have "consistent s'"
    by (rule consistentI [OF n sq2 c256 _ lm]) (simp_all add: s')
  then show ?thesis using assms(1,2) c2 cs by (simp add: good_def s')
qed

lemma step_good:
  assumes "good s False" and "step s a d = Inr (s', r, t)"
  shows "good s' t"
proof -
  let ?n = "size_n s" and ?g = "board_goal s"
  from assms(1) have cons: "consistent s" and g: "2 < ?g" "?g < 256"
    and below: "cells_below ?g (board s)"
    by (simp_all add: good_def)
  from cons have n: "0 < ?n" and wf: "wf_board ?n (board s)" and l4: "length (legal_moves s) = 4"
    by (simp_all add: consistent_def)
  have sq: "square ?n (board s)" by (rule wf_board_square [OF wf])
  from step_cases [OF assms(2)] have
    fr: "size_n s' = ?n" "board_goal s' = ?g"
        "update_legal_moves ?n (board s') (legal_moves s) = Inr (legal_moves s')" and
    cases: "(\<exists>e. py_index (legal_moves s) a = Inr e \<and> e \<noteq> 1 \<and> board s' = board s \<and> \<not> t) \<or>
          (py_index (legal_moves s) a = Inr 1 \<and>
           (\<exists>b1 ev. apply_move ?n (board s) a ([] :: 'a word list) = Inr (b1, ev) \<and>
              ((is_reach_goal b1 ?g \<and> board s' = b1 \<and> t) \<or>
               (\<not> is_reach_goal b1 ?g \<and> spawn_block ?n b1 d = Inr (board s')))))"
    by blast+
  have main: "square ?n (board s') \<and> cells_below (Suc ?g) (board s') \<and>
              (\<not> t \<longrightarrow> cells_below ?g (board s'))"
    using cases
  proof (elim disjE exE conjE)
    fix e assume "board s' = board s" "\<not> t"
    then show ?thesis using sq below cells_below_mono [OF below, of "Suc ?g"] by simp
  next
    fix b1 and ev :: "'a word list"
    assume mv: "apply_move ?n (board s) a [] = Inr (b1, ev)"
      and goal: "is_reach_goal b1 ?g" "board s' = b1" "t"
    have a: "a \<in> {0, 1, 2, 3}" by (rule apply_move_Inr_action [OF n mv])
    then have D: "nat a < 4" "int (nat a) = a" by auto
    have "square ?n b1" using apply_move_square [OF sq D(1), of "[]" b1 ev] mv D(2) by simp
    moreover have "cells_below (Suc ?g) b1" by (rule apply_move_cells_below [OF sq below a mv])
    ultimately show ?thesis using goal by simp
  next
    fix b1 and ev :: "'a word list"
    assume mv: "apply_move ?n (board s) a [] = Inr (b1, ev)"
      and ng: "\<not> is_reach_goal b1 ?g" and sp: "spawn_block ?n b1 d = Inr (board s')"
    have a: "a \<in> {0, 1, 2, 3}" by (rule apply_move_Inr_action [OF n mv])
    then have D: "nat a < 4" "int (nat a) = a" by auto
    have sq1: "square ?n b1" using apply_move_square [OF sq D(1), of "[]" b1 ev] mv D(2) by simp
    have "cells_below (Suc ?g) b1" by (rule apply_move_cells_below [OF sq below a mv])
    then have c1: "cells_below ?g b1" using ng by (rule not_goal_cells_below)
    have spd: "spawned ?n b1 (board s')" by (rule spawn_block_spawned [OF sp])
    have c2: "cells_below ?g (board s')" using spawned_cells_below [OF sq1 spd c1] g(1) by blast
    show ?thesis using spawned_square [OF sq1 spd] c2 cells_below_mono [OF c2, of "Suc ?g"] by simp
  qed
  have c256: "cells_below 256 (board s')"
    using main cells_below_mono [of "Suc ?g" "board s'" 256] g(2) by simp
  have "consistent s'"
    using consistentI [OF n _ c256 l4 fr(3) fr(1)] main by simp
  then show ?thesis using main g fr by (simp add: good_def)
qed

lemma reachable_good: "reachable s t \<Longrightarrow> good s t"
proof (induction rule: reachable.induct)
  case (after_reset s d1 d2 s')
  then show ?case by (rule reset_good)
next
  case (after_step s action d s' reward terminated)
  then show ?case using step_good by blast
qed

text \<open>
  Claim C8. In every state of an episode (after \<open>reset\<close> on an engine with a valid goal
  and any steps, none taken after a step that returned \<open>terminated = True\<close>), every
  cell of the board holds an exponent at most \<open>board_goal\<close>.
\<close>

theorem exponent_invariant:
  assumes "reachable s t"
  shows "\<forall>row \<in> set (board s). \<forall>x \<in> set row. x \<le> board_goal s"
  using reachable_good [OF assms] by (auto simp: good_def cells_below_def less_Suc_eq_le)

theorem exponent_invariant_witness:
  "\<exists>s. reset mid_state (0, True) (0, True) = Inr s \<and> reachable s False \<and>
       board s = [[1, 1], [0, 0]] \<and> board s ! 0 ! 0 \<le> board_goal s"
proof -
  have u: "[0..<2] = [0, 1]" "[Suc 0..<2] = [Suc 0]" by (simp_all add: upt_rec)
  have r2: "replicate 2 (0::nat) = [0, 0]" "replicate 2 [0, 0 :: nat] = [[0, 0], [0, 0]]"
    by (simp_all add: numeral_2_eq_2)
  have a: "spawn_block 2 [[0, 0], [0, 0]] (0, True) = Inr [[1, 0], [0, 0]]"
    by (simp add: spawn_block_def zero_pos_def u random_1_2_def)
  have b: "spawn_block 2 [[1, 0], [0, 0]] (0, True) = Inr [[1, 1], [0, 0]]"
    by (simp add: spawn_block_def zero_pos_def u random_1_2_def)
  obtain lm where lm: "update_legal_moves 2 [[1, 1], [0, 0]] [1, 1, 1, 1] = Inr lm"
    using update_legal_moves_Inr [of 2] by auto
  let ?s = "mid_state\<lparr>board := [[1, 1], [0, 0]], legal_moves := lm, is_legal := True,
              score := 0, score_per_step := [], n_step := 0,
              n_episode := n_episode mid_state + 1\<rparr>"
  have res: "reset mid_state (0, True) (0, True) = Inr ?s"
    using a b lm by (simp add: reset_def mid_state_def r2)
  have g: "2 < board_goal mid_state" "board_goal mid_state < 256" by (simp_all add: mid_state_def)
  have reach: "reachable ?s False" by (rule after_reset [OF g res])
  have "board ?s ! 0 ! 0 \<le> board_goal ?s"
    using exponent_invariant [OF reach] by simp
  with res reach show ?thesis by (intro exI [of _ ?s]) simp
qed

subsection \<open>Score overflow\<close>









end
